theory Spec2Isabelle
  imports Complex_Main
begin

section \<open>Arrays and the array library\<close>

text \<open>
  The module \<^verbatim>\<open>riemax/numerical/curves.py\<close> computes with JAX arrays. An array is
  modelled by nested lists (a vector is a list, a matrix a list of rows, a rank-3 array
  a list of matrices) over the real numbers: the arithmetic is the exact one, of which
  the float32 arithmetic of the library is an approximation. Every exception of the
  library is a value \<open>Inl e\<close> of the result type.
\<close>

datatype error =
  NegativeDimension     \<comment> \<open>a shape or a sample count below zero\<close>
  | IndexOutOfBounds    \<comment> \<open>an integer index into an axis of size 0\<close>
  | AxisOutOfBounds     \<comment> \<open>\<^verbatim>\<open>expand_dims\<close> at an axis the array does not have\<close>
  | ShapeMismatch       \<comment> \<open>operands that do not broadcast, or do not contract\<close>
  | ReshapeSize         \<comment> \<open>a reshape that changes the number of elements\<close>

type_synonym vec = "real list"
type_synonym mat = "real list list"
type_synonym tensor3 = "real list list list"

definition bindE :: "error + 'a \<Rightarrow> ('a \<Rightarrow> error + 'b) \<Rightarrow> error + 'b" where
  "bindE m f = (case m of Inl e \<Rightarrow> Inl e | Inr x \<Rightarrow> f x)"

fun sequence :: "(error + 'a) list \<Rightarrow> error + 'a list" where
  "sequence [] = Inr []"
| "sequence (x # xs) = bindE x (\<lambda>y. bindE (sequence xs) (\<lambda>ys. Inr (y # ys)))"

text \<open>
  Broadcasting of a binary operation along one axis: equal sizes pair up, an axis of
  size 1 is repeated, anything else is an error. Nesting \<open>bcast\<close> gives the rule
  for matrices and rank-3 arrays; an operand of lower rank gets leading axes of size 1.
\<close>

definition bcast :: "('a \<Rightarrow> 'b \<Rightarrow> error + 'c) \<Rightarrow> 'a list \<Rightarrow> 'b list \<Rightarrow> error + 'c list" where
  "bcast f xs ys =
     (if length xs = length ys then sequence (map2 f xs ys)
      else if length xs = 1 then sequence (map (f (hd xs)) ys)
      else if length ys = 1 then sequence (map (\<lambda>x. f x (hd ys)) xs)
      else Inl ShapeMismatch)"

definition bcast1 :: "('a \<Rightarrow> 'b \<Rightarrow> 'c) \<Rightarrow> 'a list \<Rightarrow> 'b list \<Rightarrow> error + 'c list" where
  "bcast1 f = bcast (\<lambda>x y. Inr (f x y))"

definition bcast2 :: "('a \<Rightarrow> 'b \<Rightarrow> 'c) \<Rightarrow> 'a list list \<Rightarrow> 'b list list \<Rightarrow> error + 'c list list" where
  "bcast2 f = bcast (bcast1 f)"

definition bcast3 ::
  "('a \<Rightarrow> 'b \<Rightarrow> 'c) \<Rightarrow> 'a list list list \<Rightarrow> 'b list list list \<Rightarrow> error + 'c list list list" where
  "bcast3 f = bcast (bcast2 f)"

definition ncols :: "'a list list \<Rightarrow> nat" where
  "ncols a = (case a of [] \<Rightarrow> 0 | r # _ \<Rightarrow> length r)"

text \<open>\<^verbatim>\<open>jnp.zeros((r, c))\<close>: a negative dimension is refused.\<close>

definition zeros :: "int \<Rightarrow> int \<Rightarrow> error + mat" where
  "zeros r c =
     (if r < 0 \<or> c < 0 then Inl NegativeDimension
      else Inr (replicate (nat r) (replicate (nat c) 0)))"

text \<open>\<^verbatim>\<open>jnp.linspace(start, stop, num)\<close>, endpoint included.\<close>

definition linspace :: "real \<Rightarrow> real \<Rightarrow> int \<Rightarrow> error + vec" where
  "linspace start stop num =
     (if num < 0 then Inl NegativeDimension
      else Inr (map (\<lambda>k. start + real k * (stop - start) / real_of_int (num - 1))
                  [0..<nat num]))"

text \<open>The slice \<^verbatim>\<open>[1:-1]\<close> of a vector.\<close>

definition slice_inner :: "'a list \<Rightarrow> 'a list" where
  "slice_inner xs = take (length xs - 2) (drop 1 xs)"

text \<open>
  \<^verbatim>\<open>a.at[i, j].set(v)\<close> with integer indices: an axis of size 0 cannot be indexed; an
  update out of bounds is dropped.
\<close>

definition at_set :: "mat \<Rightarrow> nat \<Rightarrow> nat \<Rightarrow> real \<Rightarrow> error + mat" where
  "at_set a i j v =
     (if length a = 0 \<or> ncols a = 0 then Inl IndexOutOfBounds
      else Inr (a[i := (a ! i)[j := v]]))"

text \<open>\<^verbatim>\<open>a.at[i, -k:].set(v)\<close>: the last \<open>k\<close> entries of row \<open>i\<close> (all of it when shorter).\<close>

definition at_set_last :: "mat \<Rightarrow> nat \<Rightarrow> nat \<Rightarrow> real \<Rightarrow> error + mat" where
  "at_set_last a i k v =
     (if length a = 0 then Inl IndexOutOfBounds
      else Inr (a[i := take (length (a ! i) - k) (a ! i) @ replicate (min k (length (a ! i))) v]))"

text \<open>
  \<^verbatim>\<open>a.at[i, lo:hi].set(vals)\<close>: the slice is cut to the row, and \<open>vals\<close> must have
  the slice's size.
\<close>

definition at_set_slice :: "mat \<Rightarrow> nat \<Rightarrow> nat \<Rightarrow> nat \<Rightarrow> vec \<Rightarrow> error + mat" where
  "at_set_slice a i lo hi vals =
     (if length a = 0 then Inl IndexOutOfBounds
      else let row = a ! i; lo' = min lo (length row); hi' = min hi (length row)
           in if hi' - lo' = length vals
              then Inr (a[i := take lo' row @ vals @ drop hi' row])
              else Inl ShapeMismatch)"

section \<open>The basis of the null space\<close>

text \<open>
  The three loops of \<^verbatim>\<open>_compute_basis\<close> differ in the row they write only:
  for each \<open>i\<close>, \<open>fill\<close> goes to columns \<open>4i .. 4i+3\<close> of row \<open>i\<close> and its
  negation to columns \<open>4i+4 .. 4i+7\<close>.
\<close>

fun fill_loop :: "(real \<Rightarrow> vec) \<Rightarrow> vec \<Rightarrow> nat list \<Rightarrow> mat \<Rightarrow> error + mat" where
  "fill_loop fill t [] z = Inr z"
| "fill_loop fill t (i # is) z =
     (let si = 4 * i; f = fill (t ! i) in
      bindE (at_set_slice z i si (si + 4) f) (\<lambda>z.
      bindE (at_set_slice z i (si + 4) (si + 8) (map uminus f)) (\<lambda>z.
      fill_loop fill t is z)))"

text \<open>The constraint matrix: \<^verbatim>\<open>_compute_basis\<close> up to \<^verbatim>\<open>jnp.concatenate\<close>.\<close>

definition constraints :: "int \<Rightarrow> error + mat" where
  "constraints num_edges =
     bindE (linspace 0 1 (num_edges + 1)) (\<lambda>ts.
     let t = slice_inner ts in
     bindE (zeros 2 (4 * num_edges)) (\<lambda>end_points.
     bindE (at_set end_points 0 0 1) (\<lambda>end_points.
     bindE (at_set_last end_points 1 4 1) (\<lambda>end_points.
     bindE (zeros (num_edges - 1) (4 * num_edges)) (\<lambda>zeroth.
     bindE (fill_loop (\<lambda>ti. [1, ti, ti ^ 2, ti ^ 3]) t [0..<nat (num_edges - 1)] zeroth) (\<lambda>zeroth.
     bindE (zeros (num_edges - 1) (4 * num_edges)) (\<lambda>first.
     bindE (fill_loop (\<lambda>ti. [0, 1, 2 * ti, 3 * ti ^ 2]) t [0..<nat (num_edges - 1)] first) (\<lambda>first.
     bindE (zeros (num_edges - 1) (4 * num_edges)) (\<lambda>second.
     bindE (fill_loop (\<lambda>ti. [0, 0, 6 * ti, 2]) t [0..<nat (num_edges - 1)] second) (\<lambda>second.
     Inr (end_points @ zeroth @ first @ second)))))))))))"

text \<open>
  \<^verbatim>\<open>jnp.linalg.svd\<close> is the library's: it is a parameter \<open>svd\<close> of the model, a
  function from a matrix to the triple \<open>(u, s, vt)\<close>. The basis is
  \<^verbatim>\<open>vt.T[:, s.size:]\<close>.
\<close>

definition compute_basis :: "(mat \<Rightarrow> mat \<times> vec \<times> mat) \<Rightarrow> int \<Rightarrow> error + mat" where
  "compute_basis svd num_edges =
     bindE (constraints num_edges) (\<lambda>cs.
     case svd cs of (u, s, vt) \<Rightarrow> Inr (map (drop (length s)) (transpose vt)))"

section \<open>The curve descriptor\<close>

record CubicSpline =
  p :: vec
  q :: vec
  num_nodes :: int
  num_edges :: int
  basis :: mat

record TangentSpace =
  point :: mat
  vector :: mat

definition from_nodes :: "(mat \<Rightarrow> mat \<times> vec \<times> mat) \<Rightarrow> vec \<Rightarrow> vec \<Rightarrow> int \<Rightarrow> error + CubicSpline" where
  "from_nodes svd p0 q0 n =
     bindE (compute_basis svd (n - 1)) (\<lambda>b.
     Inr \<lparr>p = p0, q = q0, num_nodes = n, num_edges = n - 1, basis = b\<rparr>)"

definition init_params :: "CubicSpline \<Rightarrow> error + mat" where
  "init_params sp = zeros (num_nodes sp) (int (length (p sp)))"

section \<open>Coefficients\<close>

text \<open>
  \<^verbatim>\<open>jnp.einsum('...nc, ...cd -> ...nd', basis, params)\<close> on two matrices: the
  product, when the contracted sizes agree.
\<close>

definition einsum_nc_cd :: "mat \<Rightarrow> mat \<Rightarrow> error + mat" where
  "einsum_nc_cd a b =
     (if list_all (\<lambda>row. length row = length b) a
      then Inr (map (\<lambda>row. map (\<lambda>d. sum_list (map (\<lambda>c. row ! c * b ! c ! d) [0..<length b]))
                              [0..<ncols b]) a)
      else Inl ShapeMismatch)"

text \<open>
  \<^verbatim>\<open>einops.rearrange(x, '... (num_nodes degree) ndim -> ... num_nodes degree ndim', degree=4)\<close>:
  the leading axis is cut into blocks of \<open>degree\<close> rows.
\<close>

definition rearrange :: "'a list \<Rightarrow> nat \<Rightarrow> error + 'a list list" where
  "rearrange xs degree =
     (if length xs mod degree \<noteq> 0 then Inl ReshapeSize
      else Inr (map (\<lambda>i. take degree (drop (degree * i) xs)) [0..<length xs div degree]))"

definition compute_coefficients :: "mat \<Rightarrow> mat \<Rightarrow> error + tensor3" where
  "compute_coefficients bs params =
     bindE (einsum_nc_cd bs params) (\<lambda>x_in_null. rearrange x_in_null 4)"

section \<open>Evaluation\<close>

text \<open>
  The query times are a JAX array of rank 0 (a scalar) or of rank 1 (a batch).
  \<^verbatim>\<open>jnp.expand_dims(t, 1)\<close> needs \<open>1 < ndim t + 1\<close>: it turns a batch of size
  \<open>B\<close> into a \<open>B \<times> 1\<close> matrix and raises on a scalar.
\<close>

datatype 'a arr = Scalar 'a | Batch "'a list"

fun ndim :: "'a arr \<Rightarrow> nat" where
  "ndim (Scalar x) = 0"
| "ndim (Batch xs) = 1"

definition expand_dims1 :: "'a arr \<Rightarrow> error + 'a list list" where
  "expand_dims1 t =
     (if 1 < ndim t + 1
      then Inr (case t of Batch xs \<Rightarrow> map (\<lambda>x. [x]) xs | Scalar x \<Rightarrow> [[x]])
      else Inl AxisOutOfBounds)"

definition eval_straight_line :: "real arr \<Rightarrow> vec \<Rightarrow> vec \<Rightarrow> error + mat" where
  "eval_straight_line t p0 q0 =
     bindE (bcast1 (-) q0 p0) (\<lambda>d.
     bindE (expand_dims1 t) (\<lambda>t1.
     bindE (bcast2 (*) [d] t1) (\<lambda>m.
     bcast2 (+) [p0] m)))"

text \<open>\<^verbatim>\<open>x.clip(lo, hi)\<close> is \<^verbatim>\<open>minimum(maximum(x, lo), hi)\<close>.\<close>

definition clip :: "int \<Rightarrow> int \<Rightarrow> int \<Rightarrow> int" where
  "clip x lo hi = min (max x lo) hi"

text \<open>
  \<^verbatim>\<open>coeffs[idx]\<close> with an index array: a negative index counts from the end, an
  index out of bounds is clamped. Along a batch of indices the rows are gathered; for a
  0-d index the model keeps a batch of one (that case is never reached below: a 0-d
  \<open>t\<close> is stopped by \<^verbatim>\<open>expand_dims\<close> before).
\<close>

definition getitem :: "'a list \<Rightarrow> int \<Rightarrow> error + 'a" where
  "getitem xs i =
     (if xs = [] then Inl IndexOutOfBounds
      else let n = int (length xs); j = (if i < 0 then i + n else i)
           in Inr (xs ! nat (clip j 0 (n - 1))))"

fun getitems :: "'a list \<Rightarrow> int arr \<Rightarrow> error + 'a list" where
  "getitems xs (Batch js) = sequence (map (getitem xs) js)"
| "getitems xs (Scalar j) = bindE (getitem xs j) (\<lambda>x. Inr [x])"

text \<open>\<^verbatim>\<open>jnp.einsum('td, tdc -> tdc', tpow, coeffs_idx)\<close> and \<^verbatim>\<open>.sum(1)\<close>.\<close>

definition einsum_td_tdc :: "mat \<Rightarrow> tensor3 \<Rightarrow> error + tensor3" where
  "einsum_td_tdc a b =
     (if length a = length b \<and> list_all2 (\<lambda>r m. length r = length m) a b
      then Inr (map2 (\<lambda>r m. map2 (\<lambda>x row. map (\<lambda>y. x * y) row) r m) a b)
      else Inl ShapeMismatch)"

definition sum_axis1 :: "tensor3 \<Rightarrow> mat" where
  "sum_axis1 a = map (\<lambda>m. map (\<lambda>c. sum_list (map (\<lambda>row. row ! c) m)) [0..<ncols m]) a"

definition eval_polynomials :: "real arr \<Rightarrow> int \<Rightarrow> tensor3 \<Rightarrow> nat \<Rightarrow> error + mat" where
  "eval_polynomials t num_edges0 coeffs degree =
     (let idx = map_arr (\<lambda>x. clip \<lfloor>x * of_int num_edges0\<rfloor> 0 (num_edges0 - 1)) t;
          power = [[0..<degree]]
      in bindE (expand_dims1 t) (\<lambda>t1.
         bindE (bcast2 (\<lambda>x k. x ^ k) t1 power) (\<lambda>tpow.
         bindE (getitems coeffs idx) (\<lambda>coeffs_idx.
         bindE (einsum_td_tdc tpow coeffs_idx) (\<lambda>prod.
         Inr (sum_axis1 prod))))))"

definition curve :: "real arr \<Rightarrow> mat \<Rightarrow> CubicSpline \<Rightarrow> error + mat" where
  "curve t params spline =
     bindE (compute_coefficients (basis spline) params) (\<lambda>coefficients.
     bindE (eval_straight_line t (p spline) (q spline)) (\<lambda>linear.
     bindE (eval_polynomials t (num_edges spline) coefficients 4) (\<lambda>pertubation.
     bcast2 (+) linear pertubation)))"

text \<open>\<^verbatim>\<open>jnp.arange(a, b)\<close>, and its \<^verbatim>\<open>.reshape(1, k, 1)\<close>.\<close>

definition arange :: "nat \<Rightarrow> nat \<Rightarrow> vec" where
  "arange a b = map real [a..<b]"

definition reshape_1_k_1 :: "vec \<Rightarrow> nat \<Rightarrow> error + tensor3" where
  "reshape_1_k_1 xs k = (if length xs = 1 * k * 1 then Inr [map (\<lambda>x. [x]) xs] else Inl ReshapeSize)"

definition curve_t :: "real arr \<Rightarrow> mat \<Rightarrow> CubicSpline \<Rightarrow> error + mat" where
  "curve_t t params spline =
     bindE (compute_coefficients (basis spline) params) (\<lambda>coefficients.
     bindE (reshape_1_k_1 (arange 1 4) 3) (\<lambda>scale.
     bindE (bcast3 (*) (map (drop 1) coefficients) scale) (\<lambda>dcoefficients.
     bindE (bcast1 (-) (q spline) (p spline)) (\<lambda>d.
     bindE (eval_polynomials t (num_edges spline) dcoefficients 3) (\<lambda>poly.
     bcast2 (+) [d] poly)))))"

definition curve_tt :: "real arr \<Rightarrow> mat \<Rightarrow> CubicSpline \<Rightarrow> error + mat" where
  "curve_tt t params spline =
     bindE (compute_coefficients (basis spline) params) (\<lambda>coefficients.
     bindE (reshape_1_k_1 (arange 1 4) 2) (\<lambda>scale.
     bindE (bcast3 (*) (map (drop 2) coefficients) scale) (\<lambda>dcoefficients.
     eval_polynomials t (num_edges spline) dcoefficients 2)))"

definition evaluate :: "CubicSpline \<Rightarrow> real arr \<Rightarrow> mat \<Rightarrow> error + TangentSpace" where
  "evaluate spline t params =
     bindE (curve t params spline) (\<lambda>y.
     bindE (curve_t t params spline) (\<lambda>y_dot.
     Inr \<lparr>point = y, vector = y_dot\<rparr>))"

section \<open>The formulas of the specification\<close>

text \<open>
  The definitions of this section follow the words of the specification; the
  theorems compare them with the functions above, which follow the code.
\<close>

text \<open>The baseline \<open>straight_line(t, p, q) = p + (q - p) t\<close>, for one time.\<close>

definition straight_line :: "real \<Rightarrow> vec \<Rightarrow> vec \<Rightarrow> vec" where
  "straight_line t p0 q0 = map2 (\<lambda>a b. a + (b - a) * t) p0 q0"

text \<open>\<open>segment_index = clip(floor(t * num_edges), 0, num_edges - 1)\<close>.\<close>

definition segment_index :: "real \<Rightarrow> int \<Rightarrow> int" where
  "segment_index t n = clip \<lfloor>t * of_int n\<rfloor> 0 (n - 1)"

text \<open>
  The value of one segment at the global time \<open>t\<close>: the monomials
  \<open>t^0, t^1, ...\<close> times the segment's coefficient rows, summed over the degree axis,
  for each ambient dimension.
\<close>

definition poly_at :: "mat \<Rightarrow> real \<Rightarrow> vec" where
  "poly_at seg t = map (\<lambda>c. \<Sum>d<length seg. t ^ d * seg ! d ! c) [0..<ncols seg]"

text \<open>The projection \<open>basis @ params\<close>, entry by entry.\<close>

definition matmul :: "mat \<Rightarrow> mat \<Rightarrow> mat" where
  "matmul a b = map (\<lambda>row. map (\<lambda>d. \<Sum>c<length b. row ! c * b ! c ! d) [0..<ncols b]) a"

text \<open>
  The per-segment coefficients, of shape \<open>(num_edges, 4, D)\<close>: the rows of
  \<open>basis @ params\<close> in blocks of four.
\<close>

definition coefficients_of :: "mat \<Rightarrow> mat \<Rightarrow> tensor3" where
  "coefficients_of bs params =
     map (\<lambda>i. take 4 (drop (4 * i) (matmul bs params))) [0..<length bs div 4]"

text \<open>
  The invariant of a descriptor: at least two nodes, one edge fewer, a basis of shape
  \<open>(4 num_edges, num_nodes)\<close>, and endpoints of one dimension.
\<close>

definition valid_spline :: "CubicSpline \<Rightarrow> bool" where
  "valid_spline sp \<longleftrightarrow>
     2 \<le> num_nodes sp \<and> num_edges sp = num_nodes sp - 1
     \<and> length (basis sp) = nat (4 * num_edges sp)
     \<and> list_all (\<lambda>row. length row = nat (num_nodes sp)) (basis sp)
     \<and> length (p sp) = length (q sp)"

text \<open>A parameter matrix of shape \<open>(num_nodes, D)\<close>.\<close>

definition params_shape :: "CubicSpline \<Rightarrow> mat \<Rightarrow> bool" where
  "params_shape sp params \<longleftrightarrow>
     length params = nat (num_nodes sp)
     \<and> list_all (\<lambda>row. length row = length (p sp)) params"


text \<open>\<open>d_coeffs[:, j, :] = coefficients[:, j+1, :] * (j+1)\<close> for \<open>j = 0, 1, 2\<close>.\<close>

definition d_coeffs :: "tensor3 \<Rightarrow> tensor3" where
  "d_coeffs cs = map (\<lambda>seg. map (\<lambda>j. map (\<lambda>x. x * real (j + 1)) (seg ! (j + 1))) [0..<3]) cs"

text \<open>
  The descriptor of one segment from \<open>(0, 0)\<close> to \<open>(1, 1)\<close>, with an orthonormal
  basis of the null space of the constraints \<open>c\<^sub>0 = 0\<close> and
  \<open>c\<^sub>0 + c\<^sub>1 + c\<^sub>2 + c\<^sub>3 = 0\<close>.
\<close>

definition example_spline :: CubicSpline where
  "example_spline =
     \<lparr>p = [0, 0], q = [1, 1], num_nodes = 2, num_edges = 1,
      basis = [[0, 0], [1 / sqrt 2, 1 / sqrt 6], [- 1 / sqrt 2, 1 / sqrt 6], [0, - 2 / sqrt 6]]\<rparr>"

text \<open>
  The velocity: \<open>(q - p) + evaluate_polynomial(t, num_edges, d_coeffs, degree=3)\<close>.
\<close>

definition velocity :: "real arr \<Rightarrow> CubicSpline \<Rightarrow> tensor3 \<Rightarrow> error + mat" where
  "velocity t sp coefficients =
     bindE (bcast1 (-) (q sp) (p sp)) (\<lambda>d.
     bindE (eval_polynomials t (num_edges sp) (d_coeffs coefficients) 3) (\<lambda>poly.
     bcast2 (+) [d] poly))"

text \<open>
  The interior knots \<open>t\<^sub>i = (i + 1) / num_edges\<close> (\<open>i\<close> counted from 0), and a
  constraint row that holds \<open>fill\<close> on the block of segment \<open>i\<close>, its negation on
  the block of segment \<open>i + 1\<close>, and zero elsewhere.
\<close>

definition knot :: "nat \<Rightarrow> nat \<Rightarrow> real" where
  "knot n i = real (i + 1) / real n"

definition block_row :: "nat \<Rightarrow> nat \<Rightarrow> vec \<Rightarrow> vec" where
  "block_row n i fill =
     replicate (4 * i) 0 @ fill @ map uminus fill @ replicate (4 * n - (4 * i + 8)) 0"

text \<open>The constraint matrix of \<open>n \<ge> 1\<close> segments, row by row.\<close>

definition constraint_rows :: "nat \<Rightarrow> mat" where
  "constraint_rows n =
     [(replicate (4 * n) 0)[0 := 1], replicate (4 * n - 4) 0 @ replicate 4 1]
     @ map (\<lambda>i. block_row n i [1, knot n i, knot n i ^ 2, knot n i ^ 3]) [0..<n - 1]
     @ map (\<lambda>i. block_row n i [0, 1, 2 * knot n i, 3 * knot n i ^ 2]) [0..<n - 1]
     @ map (\<lambda>i. block_row n i [0, 0, 6 * knot n i, 2]) [0..<n - 1]"

text \<open>The scalar product of two vectors, and a column of a matrix.\<close>

definition dot :: "vec \<Rightarrow> vec \<Rightarrow> real" where
  "dot xs ys = sum_list (map2 (*) xs ys)"

definition column :: "mat \<Rightarrow> nat \<Rightarrow> vec" where
  "column a j = map (\<lambda>row. row ! j) a"

text \<open>
  What the development uses of \<^verbatim>\<open>jnp.linalg.svd(a, compute_uv=True, full_matrices=True)\<close>,
  in exact arithmetic, for a matrix \<open>a\<close> of \<open>m\<close> rows and \<open>c\<close> columns: there are
  \<open>min m c\<close> singular values; \<open>vt\<close> is a \<open>c \<times> c\<close> matrix with orthonormal rows;
  \<open>u\<close> is an \<open>m \<times> m\<close> matrix; and \<open>a = u diag(s) vt\<close>. Every full singular
  value decomposition has these properties (and more: \<open>u\<close> is orthogonal too, and
  \<open>s\<close> is non-negative and sorted, which nothing below needs).
\<close>

definition svd_contract :: "mat \<Rightarrow> mat \<times> vec \<times> mat \<Rightarrow> bool" where
  "svd_contract a usv =
     (case usv of (u, s, vt) \<Rightarrow>
        length s = min (length a) (ncols a)
        \<and> length vt = ncols a \<and> list_all (\<lambda>r. length r = ncols a) vt
        \<and> list_all (\<lambda>i. list_all (\<lambda>j. dot (vt ! i) (vt ! j) = (if i = j then 1 else 0))
                          [0..<ncols a]) [0..<ncols a]
        \<and> length u = length a \<and> list_all (\<lambda>r. length r = length a) u
        \<and> list_all (\<lambda>i. list_all (\<lambda>j. a ! i ! j = (\<Sum>k<length s. u ! i ! k * s ! k * vt ! k ! j))
                          [0..<ncols a]) [0..<length a])"

text \<open>The decomposition routine meets the contract on the constraint matrix of \<open>num_edges\<close> segments.\<close>

definition svd_ok :: "(mat \<Rightarrow> mat \<times> vec \<times> mat) \<Rightarrow> int \<Rightarrow> bool" where
  "svd_ok svd num_edges0 =
     (case constraints num_edges0 of Inl e \<Rightarrow> False | Inr cs \<Rightarrow> svd_contract cs (svd cs))"

text \<open>The columns \<open>k, k+1, ...\<close> of the transpose of a \<open>c \<times> c\<close> matrix \<open>vt\<close>.\<close>

definition trailing :: "mat \<Rightarrow> nat \<Rightarrow> nat \<Rightarrow> mat" where
  "trailing vt k c = map (\<lambda>r. map (\<lambda>j. vt ! j ! r) [k..<c]) [0..<c]"

text \<open>
  A decomposition of the constraint matrix \<open>[[1, 0, 0, 0], [1, 1, 1, 1]]\<close> of one
  segment that meets the contract: the rows of \<open>example_vt\<close> are orthonormal, the first two
  span the rows of the matrix, the last two its null space.
\<close>

definition example_vt :: mat where
  "example_vt =
     [[1, 0, 0, 0],
      [0, 1 / sqrt 3, 1 / sqrt 3, 1 / sqrt 3],
      [0, 1 / sqrt 2, - 1 / sqrt 2, 0],
      [0, 1 / sqrt 6, 1 / sqrt 6, - 2 / sqrt 6]]"

definition example_svd :: "mat \<Rightarrow> mat \<times> vec \<times> mat" where
  "example_svd a = ([[1, 0], [1, 1]], [1, sqrt 3], example_vt)"

text \<open>
  The value, the first and the second derivative at \<open>t\<close> of the cubic with the
  coefficients \<open>[c\<^sub>0, c\<^sub>1, c\<^sub>2, c\<^sub>3]\<close>.
\<close>

definition cubic_value :: "vec \<Rightarrow> real \<Rightarrow> real" where
  "cubic_value c t = c ! 0 + c ! 1 * t + c ! 2 * t ^ 2 + c ! 3 * t ^ 3"

definition cubic_first :: "vec \<Rightarrow> real \<Rightarrow> real" where
  "cubic_first c t = c ! 1 + 2 * c ! 2 * t + 3 * c ! 3 * t ^ 2"

definition cubic_second :: "vec \<Rightarrow> real \<Rightarrow> real" where
  "cubic_second c t = 2 * c ! 2 + 6 * c ! 3 * t"

text \<open>
  The acceleration formula of the specification on one segment:
  \<open>dd_coeffs[j] = coefficients[j+2] * (j+1)\<close> for \<open>j = 0, 1\<close>, evaluated with the
  monomials \<open>t^0, t^1\<close>.
\<close>

definition dd_value :: "vec \<Rightarrow> real \<Rightarrow> real" where
  "dd_value c t = c ! 2 * 1 + c ! 3 * 2 * t"

section \<open>The error monad\<close>

lemma bindE_Inl [simp]: "bindE (Inl e) f = Inl e"
  by (simp add: bindE_def)

lemma bindE_Inr [simp]: "bindE (Inr x) f = f x"
  by (simp add: bindE_def)

lemma isl_bindE: "isl m \<Longrightarrow> isl (bindE m f)"
  by (cases m) simp_all

lemma isl_bindE_cont: "(\<And>x. isl (f x)) \<Longrightarrow> isl (bindE m f)"
  by (cases m) simp_all

section \<open>Query times of rank 0\<close>

lemma expand_dims1_Scalar: "expand_dims1 (Scalar x) = Inl AxisOutOfBounds"
  by (simp add: expand_dims1_def)

lemma expand_dims1_Batch: "expand_dims1 (Batch xs) = Inr (map (\<lambda>x. [x]) xs)"
  by (simp add: expand_dims1_def)

lemma eval_straight_line_Scalar: "isl (eval_straight_line (Scalar x) p0 q0)"
  unfolding eval_straight_line_def
  by (rule isl_bindE_cont) (simp add: expand_dims1_Scalar)

lemma eval_polynomials_Scalar: "isl (eval_polynomials (Scalar x) n coeffs degree)"
  by (simp add: eval_polynomials_def expand_dims1_Scalar)

text \<open>
  Claim C10. Whatever the descriptor and the parameter matrix, \<open>evaluate\<close> raises on a
  query time of rank 0: the straight-line evaluator and the polynomial evaluator both
  expand axis 1 of \<open>t\<close>, which a scalar does not have.
\<close>

theorem evaluate_scalar_time_fails:
  "isl (evaluate spline (Scalar x) params)
   \<and> isl (eval_straight_line (Scalar x) p0 q0)
   \<and> isl (eval_polynomials (Scalar x) n coeffs degree)"
proof -
  have "isl (curve (Scalar x) params spline)"
    unfolding curve_def
    by (rule isl_bindE_cont, rule isl_bindE, rule eval_straight_line_Scalar)
  then have "isl (evaluate spline (Scalar x) params)"
    unfolding evaluate_def by (rule isl_bindE)
  then show ?thesis
    using eval_straight_line_Scalar eval_polynomials_Scalar by blast
qed

section \<open>The second derivative\<close>

lemma reshape_arange_1_4_2: "reshape_1_k_1 (arange 1 4) 2 = Inl ReshapeSize"
  by (simp add: reshape_1_k_1_def arange_def)

text \<open>
  Claim C4. \<^verbatim>\<open>_curve_tt\<close> reshapes the three numbers of \<^verbatim>\<open>jnp.arange(1, 4)\<close>
  to the shape \<open>(1, 2, 1)\<close>, which holds two: it raises for every query time, every
  parameter matrix and every descriptor, and returns no acceleration.
\<close>

theorem curve_tt_always_raises: "isl (curve_tt t params spline)"
  unfolding curve_tt_def
  by (rule isl_bindE_cont) (simp only: reshape_arange_1_4_2 bindE_Inl sum.disc)

section \<open>Fewer than two nodes\<close>

lemma constraints_degenerate: "m < 1 \<Longrightarrow> isl (constraints m)"
proof -
  assume m: "m < 1"
  consider "m + 1 < 0" | "m = -1" | "m = 0" using m by linarith
  then show ?thesis
  proof cases
    case 1
    then show ?thesis by (simp add: constraints_def linspace_def)
  next
    case 2
    then show ?thesis by (simp add: constraints_def linspace_def zeros_def)
  next
    case 3
    then show ?thesis
      by (simp add: constraints_def linspace_def zeros_def at_set_def ncols_def numeral_2_eq_2)
  qed
qed

text \<open>
  Claim C8. With \<open>num_nodes < 2\<close> the constructor \<open>from_nodes\<close> returns no
  descriptor: building the constraint matrix raises (a negative sample count or a
  negative dimension for \<open>num_nodes \<le> 0\<close>, an index into an axis of size 0 for
  \<open>num_nodes = 1\<close>, where the next \<^verbatim>\<open>jnp.zeros((-1, 0))\<close> would raise as well),
  before the decomposition is called. The code has no check of its own: the error is
  the array library's.
\<close>

theorem from_nodes_degenerate_fails: "n < 2 \<Longrightarrow> isl (from_nodes svd p0 q0 n)"
proof -
  assume "n < 2"
  then have "isl (constraints (n - 1))" by (simp add: constraints_degenerate)
  then show ?thesis
    unfolding from_nodes_def compute_basis_def by (intro isl_bindE)
qed

theorem from_nodes_degenerate_fails_witness:
  "(1::int) < 2 \<and> (0::int) < 2 \<and> (-3::int) < 2
   \<and> isl (from_nodes (\<lambda>a. ([], [], [])) [0, 0] [1, 1] 1)
   \<and> isl (from_nodes (\<lambda>a. ([], [], [])) [0, 0] [1, 1] 0)
   \<and> isl (from_nodes (\<lambda>a. ([], [], [])) [0, 0] [1, 1] (-3))"
  using from_nodes_degenerate_fails [of 1 "\<lambda>a. ([], [], [])" "[0, 0]" "[1, 1]"]
    from_nodes_degenerate_fails [of 0 "\<lambda>a. ([], [], [])" "[0, 0]" "[1, 1]"]
    from_nodes_degenerate_fails [of "-3" "\<lambda>a. ([], [], [])" "[0, 0]" "[1, 1]"]
  by simp

section \<open>Broadcasting and shapes\<close>

lemma sequence_map_Inr:
  "(\<And>x. x \<in> set xs \<Longrightarrow> g x = Inr (h x)) \<Longrightarrow> sequence (map g xs) = Inr (map h xs)"
  by (induction xs) simp_all

lemma bcast_same_length:
  "length xs = length ys \<Longrightarrow> bcast g xs ys = sequence (map2 g xs ys)"
  by (simp add: bcast_def)

lemma bcast_single_left: "bcast g [x] ys = sequence (map (g x) ys)"
proof (cases "length ys = 1")
  case True
  then obtain y where "ys = [y]" by (cases ys) auto
  then show ?thesis by (simp add: bcast_def)
next
  case False
  then show ?thesis by (auto simp add: bcast_def)
qed

lemma bcast_single_right: "bcast g xs [y] = sequence (map (\<lambda>x. g x y) xs)"
proof (cases "length xs = 1")
  case True
  then obtain x where "xs = [x]" by (cases xs) auto
  then show ?thesis by (simp add: bcast_def)
next
  case False
  then show ?thesis by (auto simp add: bcast_def)
qed

lemma bcast1_same_length:
  "length xs = length ys \<Longrightarrow> bcast1 f xs ys = Inr (map2 f xs ys)"
proof -
  assume "length xs = length ys"
  then have "bcast1 f xs ys = sequence (map (\<lambda>(x, y). Inr (f x y)) (zip xs ys))"
    by (simp add: bcast1_def bcast_same_length)
  also have "\<dots> = Inr (map (\<lambda>(x, y). f x y) (zip xs ys))"
    by (rule sequence_map_Inr) auto
  finally show ?thesis .
qed

lemma bcast1_single_right: "bcast1 f xs [y] = Inr (map (\<lambda>x. f x y) xs)"
  unfolding bcast1_def bcast_single_right by (rule sequence_map_Inr) simp

lemma bcast1_single_left: "bcast1 f [x] ys = Inr (map (f x) ys)"
  unfolding bcast1_def bcast_single_left by (rule sequence_map_Inr) simp

lemma sequence_map_Inr_fun [simp]: "sequence (map (\<lambda>x. Inr (h x)) xs) = Inr (map h xs)"
  by (induction xs) simp_all

lemma bcast2_row_col: "bcast2 f [d] (map (\<lambda>x. [x]) ts) = Inr (map (\<lambda>t. map (\<lambda>a. f a t) d) ts)"
  by (simp add: bcast2_def bcast_single_left comp_def bcast1_single_right)

lemma bcast2_row_mat:
  assumes "\<And>r. r \<in> set m \<Longrightarrow> length r = length v"
  shows "bcast2 f [v] m = Inr (map (\<lambda>r. map2 f v r) m)"
proof -
  have "sequence (map (bcast1 f v) m) = Inr (map (\<lambda>r. map2 f v r) m)"
    by (rule sequence_map_Inr) (simp add: bcast1_same_length assms)
  then show ?thesis by (simp add: bcast2_def bcast_single_left)
qed

lemma eval_straight_line_Batch:
  assumes "length p0 = length q0"
  shows "eval_straight_line (Batch ts) p0 q0 = Inr (map (\<lambda>t. straight_line t p0 q0) ts)"
proof -
  define d where "d = map2 (-) q0 p0"
  have d: "bcast1 (-) q0 p0 = Inr d"
    using assms by (simp add: bcast1_same_length d_def)
  have a: "bcast2 (+) [p0] (map (\<lambda>t. map (\<lambda>a. a * t) d) ts)
           = Inr (map (\<lambda>r. map2 (+) p0 r) (map (\<lambda>t. map (\<lambda>a. a * t) d) ts))"
    by (rule bcast2_row_mat) (auto simp add: assms d_def)
  have e: "map2 (+) p0 (map (\<lambda>a. a * t) d) = straight_line t p0 q0" for t
    using assms
    by (intro nth_equalityI) (simp_all add: straight_line_def d_def)
  show ?thesis
    unfolding eval_straight_line_def d bindE_Inr expand_dims1_Batch bcast2_row_col a map_map comp_def e ..
qed

lemma segment_index_range: "1 \<le> n \<Longrightarrow> 0 \<le> segment_index t n \<and> segment_index t n \<le> n - 1"
  by (simp add: segment_index_def clip_def)

lemma bcast2_col_row: "bcast2 f (map (\<lambda>x. [x]) ts) [ks] = Inr (map (\<lambda>x. map (f x) ks) ts)"
  by (simp add: bcast2_def bcast_single_right comp_def bcast1_single_left)

lemma getitem_in_range:
  "0 \<le> i \<Longrightarrow> i < int (length xs) \<Longrightarrow> getitem xs i = Inr (xs ! nat i)"
  by (auto simp add: getitem_def clip_def Let_def)

lemma sum_rows_nth:
  "sum_list (map (\<lambda>row. row ! c) m) = (\<Sum>d<length m. m ! d ! c)"
  by (simp add: sum_list_sum_nth atLeast0LessThan)

lemma ncols_scaled:
  "length tp = length seg \<Longrightarrow> ncols (map2 (\<lambda>x row. map (\<lambda>y. x * y) row) tp seg) = ncols seg"
  by (cases tp; cases seg) (simp_all add: ncols_def)

lemma poly_row:
  assumes "\<And>row. row \<in> set seg \<Longrightarrow> length row = ncols seg"
  shows "map (\<lambda>c. sum_list (map (\<lambda>row. row ! c)
            (map2 (\<lambda>x row. map (\<lambda>y. x * y) row) (map (\<lambda>k. t ^ k) [0..<length seg]) seg)))
          [0..<ncols (map2 (\<lambda>x row. map (\<lambda>y. x * y) row) (map (\<lambda>k. t ^ k) [0..<length seg]) seg)]
         = poly_at seg t"
proof -
  let ?m = "map2 (\<lambda>x row. map (\<lambda>y. x * y) row) (map (\<lambda>k. t ^ k) [0..<length seg]) seg"
  have nc: "ncols ?m = ncols seg" by (simp add: ncols_scaled)
  have len: "length ?m = length seg" by simp
  have "(\<Sum>d<length ?m. ?m ! d ! c) = (\<Sum>d<length seg. t ^ d * seg ! d ! c)" if "c < ncols seg" for c
    unfolding len
  proof (rule sum.cong)
    fix d assume "d \<in> {..<length seg}"
    then have d: "d < length seg" by simp
    then have "c < length (seg ! d)" using assms that by simp
    then show "?m ! d ! c = t ^ d * seg ! d ! c" using d by simp
  qed simp
  then show ?thesis
    unfolding poly_at_def sum_rows_nth nc by simp
qed

lemma eval_polynomials_Batch:
  assumes n: "1 \<le> n" and len: "length coeffs = nat n"
    and deg: "\<And>seg. seg \<in> set coeffs \<Longrightarrow> length seg = degree"
    and rect: "\<And>seg row. seg \<in> set coeffs \<Longrightarrow> row \<in> set seg \<Longrightarrow> length row = ncols seg"
  shows "eval_polynomials (Batch ts) n coeffs degree
         = Inr (map (\<lambda>t. poly_at (coeffs ! nat (segment_index t n)) t) ts)"
proof -
  let ?sel = "\<lambda>t. coeffs ! nat (segment_index t n)"
  let ?tp = "\<lambda>t. map (\<lambda>k. t ^ k) [0..<degree]"
  have insel: "?sel t \<in> set coeffs" for t
    using segment_index_range [OF n, of t] len by (intro nth_mem) linarith
  have g: "getitem coeffs (segment_index t n) = Inr (?sel t)" for t
    using segment_index_range [OF n, of t] len by (intro getitem_in_range) simp_all
  have gs: "getitems coeffs (Batch (map (\<lambda>x. clip \<lfloor>x * of_int n\<rfloor> 0 (n - 1)) ts))
            = Inr (map ?sel ts)"
    using g by (simp add: comp_def segment_index_def)
  define prodrow where
    "prodrow t = map2 (\<lambda>x row. map (\<lambda>y. x * y) row) (?tp t) (?sel t)" for t
  have es: "einsum_td_tdc (map ?tp ts) (map ?sel ts) = Inr (map prodrow ts)"
    unfolding einsum_td_tdc_def prodrow_def
    by (simp add: list_all2_conv_all_nth deg [OF insel] map2_map_map)
  have row: "map (\<lambda>c. sum_list (map (\<lambda>row. row ! c) (prodrow t))) [0..<ncols (prodrow t)]
             = poly_at (?sel t) t" for t
    unfolding prodrow_def
    using poly_row [of "?sel t" t] rect [OF insel] deg [OF insel, of t] by simp
  have sa: "sum_axis1 (map prodrow ts) = map (\<lambda>t. poly_at (?sel t) t) ts"
    unfolding sum_axis1_def by (simp add: comp_def row)
  show ?thesis
    unfolding eval_polynomials_def Let_def arr.map expand_dims1_Batch bindE_Inr
      bcast2_col_row gs es sa ..
qed

lemma sum_list_upt: "sum_list (map f [0..<n]) = (\<Sum>i<n. f i)"
  by (simp add: interv_sum_list_conv_sum_set_nat atLeast0LessThan)

lemma einsum_nc_cd_ok:
  assumes "\<And>row. row \<in> set a \<Longrightarrow> length row = length b"
  shows "einsum_nc_cd a b = Inr (matmul a b)"
  using assms by (simp add: einsum_nc_cd_def matmul_def list_all_iff sum_list_upt)

lemma rearrange_ok:
  "length xs = 4 * n \<Longrightarrow> rearrange xs 4 = Inr (map (\<lambda>i. take 4 (drop (4 * i) xs)) [0..<n])"
  by (simp add: rearrange_def)

lemma compute_coefficients_ok:
  assumes "length bs = 4 * n" and "\<And>row. row \<in> set bs \<Longrightarrow> length row = length params"
  shows "compute_coefficients bs params
         = Inr (map (\<lambda>i. take 4 (drop (4 * i) (matmul bs params))) [0..<n])"
proof -
  have l: "length (matmul bs params) = 4 * n" using assms(1) by (simp add: matmul_def)
  have e: "einsum_nc_cd bs params = Inr (matmul bs params)"
    by (rule einsum_nc_cd_ok) (rule assms(2))
  show ?thesis
    unfolding compute_coefficients_def e bindE_Inr using l by (rule rearrange_ok)
qed

lemma block_nth:
  assumes "length xs = 4 * n" and "i < n" and "d < 4"
  shows "take 4 (drop (4 * i) xs) ! d = xs ! (4 * i + d)"
  using assms by simp

lemma block_length:
  assumes "length xs = 4 * n" and "i < n"
  shows "length (take 4 (drop (4 * i) xs)) = 4"
  using assms by simp

lemma matmul_row_length: "r \<in> set (matmul a b) \<Longrightarrow> length r = ncols b"
  by (auto simp add: matmul_def)

lemma matmul_nth:
  "i < length a \<Longrightarrow> d < ncols b \<Longrightarrow> matmul a b ! i ! d = (\<Sum>c<length b. a ! i ! c * b ! c ! d)"
  by (simp add: matmul_def)

lemma ncols_block:
  assumes "length xs = 4 * n" and "i < n" and "\<And>r. r \<in> set xs \<Longrightarrow> length r = D"
  shows "ncols (take 4 (drop (4 * i) xs)) = D"
proof -
  let ?b = "take 4 (drop (4 * i) xs)"
  have l: "length ?b = 4" using assms(1,2) by simp
  then obtain r rs where b: "?b = r # rs" by (cases ?b) auto
  then have "r \<in> set ?b" by simp
  then have "r \<in> set xs" by (meson in_set_dropD in_set_takeD)
  then show ?thesis using b assms(3) by (simp add: ncols_def)
qed

lemma bcast2_same_shape:
  assumes "length xs = length ys" and "\<And>i. i < length xs \<Longrightarrow> length (xs ! i) = length (ys ! i)"
  shows "bcast2 f xs ys = Inr (map2 (map2 f) xs ys)"
proof -
  have "sequence (map (\<lambda>(x, y). bcast1 f x y) (zip xs ys))
        = Inr (map (\<lambda>(x, y). map2 f x y) (zip xs ys))"
  proof (rule sequence_map_Inr)
    fix xy assume "xy \<in> set (zip xs ys)"
    then obtain i where "i < length xs" "xy = (xs ! i, ys ! i)"
      using assms(1) by (auto simp add: set_zip)
    then show "(case xy of (x, y) \<Rightarrow> bcast1 f x y) = Inr (case xy of (x, y) \<Rightarrow> map2 f x y)"
      using assms(2) by (simp add: bcast1_same_length)
  qed
  then show ?thesis
    by (simp add: bcast2_def bcast_same_length assms(1))
qed

section \<open>Coefficients and the curve\<close>

lemma compute_coefficients_of:
  assumes "length bs = 4 * n" and "\<And>row. row \<in> set bs \<Longrightarrow> length row = length params"
  shows "compute_coefficients bs params = Inr (coefficients_of bs params)"
  using compute_coefficients_ok [OF assms] assms(1) by (simp add: coefficients_of_def)

lemma ncols_nonempty: "a \<noteq> [] \<Longrightarrow> r \<in> set a \<Longrightarrow> (\<And>r. r \<in> set a \<Longrightarrow> length r = D) \<Longrightarrow> ncols a = D"
  by (cases a) (simp_all add: ncols_def)

lemma coefficients_of_length: "length bs = 4 * n \<Longrightarrow> length (coefficients_of bs params) = n"
  by (simp add: coefficients_of_def)

lemma coefficients_of_seg:
  assumes "length bs = 4 * n" and "seg \<in> set (coefficients_of bs params)"
  shows "length seg = 4" and "ncols seg = ncols params"
    and "row \<in> set seg \<Longrightarrow> length row = ncols params"
proof -
  let ?x = "matmul bs params"
  have lx: "length ?x = 4 * n" using assms(1) by (simp add: matmul_def)
  obtain i where i: "i < n" and seg: "seg = take 4 (drop (4 * i) ?x)"
    using assms by (auto simp add: coefficients_of_def)
  show "length seg = 4" unfolding seg using lx i by (rule block_length)
  show "ncols seg = ncols params"
    unfolding seg using lx i by (rule ncols_block) (rule matmul_row_length)
  show "length row = ncols params" if "row \<in> set seg"
  proof -
    have "row \<in> set ?x" using that unfolding seg by (meson in_set_dropD in_set_takeD)
    then show ?thesis by (rule matmul_row_length)
  qed
qed

lemma coefficients_of_nth:
  assumes "length bs = 4 * n" and "i < n" and "d < 4" and "c < ncols params"
  shows "coefficients_of bs params ! i ! d ! c
         = (\<Sum>j<length params. bs ! (4 * i + d) ! j * params ! j ! c)"
proof -
  have lx: "length (matmul bs params) = 4 * n" using assms(1) by (simp add: matmul_def)
  have "coefficients_of bs params ! i ! d = matmul bs params ! (4 * i + d)"
    using assms(1,2) block_nth [OF lx assms(2,3)] by (simp add: coefficients_of_def)
  moreover have "4 * i + d < length bs" using assms(1-3) by simp
  ultimately show ?thesis using assms(4) by (simp add: matmul_nth)
qed

lemma valid_splineD:
  assumes "valid_spline sp"
  shows "1 \<le> num_edges sp" and "length (basis sp) = 4 * nat (num_edges sp)"
    and "nat (num_nodes sp) = nat (num_edges sp) + 1"
    and "row \<in> set (basis sp) \<Longrightarrow> length row = nat (num_nodes sp)"
    and "length (p sp) = length (q sp)" and "2 \<le> num_nodes sp"
  using assms by (auto simp add: valid_spline_def list_all_iff nat_mult_distrib)

lemma params_shapeD:
  assumes "valid_spline sp" and "params_shape sp params"
  shows "length params = nat (num_nodes sp)" and "ncols params = length (p sp)"
    and "row \<in> set params \<Longrightarrow> length row = length (p sp)"
proof -
  show l: "length params = nat (num_nodes sp)" using assms(2) by (simp add: params_shape_def)
  then have "params \<noteq> []" using valid_splineD(6) [OF assms(1)] by auto
  then obtain r rs where "params = r # rs" by (cases params) auto
  then show "ncols params = length (p sp)"
    using assms(2) by (simp add: params_shape_def ncols_def)
  show "length row = length (p sp)" if "row \<in> set params"
    using assms(2) that by (simp add: params_shape_def list_all_iff)
qed

lemma curve_Batch:
  assumes v: "valid_spline sp" and ps: "params_shape sp params"
  shows "curve (Batch ts) params sp
         = Inr (map (\<lambda>t. map2 (+) (straight_line t (p sp) (q sp))
                     (poly_at (coefficients_of (basis sp) params
                                 ! nat (segment_index t (num_edges sp))) t)) ts)"
proof -
  let ?cs = "coefficients_of (basis sp) params"
  let ?L = "map (\<lambda>t. straight_line t (p sp) (q sp)) ts"
  let ?P = "map (\<lambda>t. poly_at (?cs ! nat (segment_index t (num_edges sp))) t) ts"
  note lb = valid_splineD(2) [OF v]
  have cc: "compute_coefficients (basis sp) params = Inr ?cs"
    using lb
  proof (rule compute_coefficients_of)
    fix row assume "row \<in> set (basis sp)"
    then show "length row = length params"
      using valid_splineD(4) [OF v] params_shapeD(1) [OF v ps] by simp
  qed
  have sl: "eval_straight_line (Batch ts) (p sp) (q sp) = Inr ?L"
    by (rule eval_straight_line_Batch) (rule valid_splineD(5) [OF v])
  have ep: "eval_polynomials (Batch ts) (num_edges sp) ?cs 4 = Inr ?P"
  proof (rule eval_polynomials_Batch)
    show "1 \<le> num_edges sp" by (rule valid_splineD(1) [OF v])
    show "length ?cs = nat (num_edges sp)" using lb by (rule coefficients_of_length)
    show "length seg = 4" if "seg \<in> set ?cs" for seg
      using lb that by (rule coefficients_of_seg)
    show "length row = ncols seg" if "seg \<in> set ?cs" "row \<in> set seg" for seg row
      using coefficients_of_seg(2,3) [OF lb that(1)] that(2) by simp
  qed
  have seg_in: "?cs ! nat (segment_index t (num_edges sp)) \<in> set ?cs" for t
    using segment_index_range [OF valid_splineD(1) [OF v], of t] coefficients_of_length [OF lb, of params]
    by (intro nth_mem) linarith
  have add: "bcast2 (+) ?L ?P = Inr (map2 (map2 (+)) ?L ?P)"
  proof (rule bcast2_same_shape)
    show "length ?L = length ?P" by simp
    fix i assume "i < length ?L"
    then have i: "i < length ts" by simp
    have "length (poly_at (?cs ! nat (segment_index (ts ! i) (num_edges sp))) (ts ! i))
          = ncols params"
      using coefficients_of_seg(2) [OF lb seg_in] by (simp add: poly_at_def)
    then show "length (?L ! i) = length (?P ! i)"
      using i valid_splineD(5) [OF v] params_shapeD(2) [OF v ps]
      by (simp add: straight_line_def)
  qed
  show ?thesis
    unfolding curve_def cc sl ep bindE_Inr add by (simp add: map2_map_map)
qed

lemma length_four: "length xs = 4 \<Longrightarrow> \<exists>a b c d. xs = [a, b, c, d]"
  by (cases xs; simp; cases "tl xs"; simp; cases "tl (tl xs)"; simp; cases "tl (tl (tl xs))"; simp)

lemma upt_3: "[0..<3] = [0, 1, 2]"
  by (simp add: upt_rec)

lemma reshape_arange_1_4_3: "reshape_1_k_1 (arange 1 4) 3 = Inr [[[1], [2], [3]]]"
  by (simp add: reshape_1_k_1_def arange_def upt_rec)

lemma scale_segment:
  assumes "length seg = 4"
  shows "bcast2 (*) (drop 1 seg) [[1], [2], [3]]
         = Inr (map (\<lambda>j. map (\<lambda>x. x * real (j + 1)) (seg ! (j + 1))) [0..<3])"
proof -
  obtain a b c d where seg: "seg = [a, b, c, d]" using length_four [OF assms] by blast
  show ?thesis
    unfolding seg upt_3 bcast2_def by (simp add: bcast_same_length bcast1_single_right)
qed

lemma dcoefficients_eq:
  assumes "\<And>seg. seg \<in> set cs \<Longrightarrow> length seg = 4"
  shows "bcast3 (*) (map (drop 1) cs) [[[1], [2], [3]]] = Inr (d_coeffs cs)"
proof -
  have "sequence (map (\<lambda>seg. bcast2 (*) (drop 1 seg) [[1], [2], [3]]) cs)
        = Inr (map (\<lambda>seg. map (\<lambda>j. map (\<lambda>x. x * real (j + 1)) (seg ! (j + 1))) [0..<3]) cs)"
  proof (rule sequence_map_Inr)
    fix seg assume "seg \<in> set cs"
    then have "length seg = 4" by (rule assms)
    then show "bcast2 (*) (drop 1 seg) [[1], [2], [3]]
               = Inr (map (\<lambda>j. map (\<lambda>x. x * real (j + 1)) (seg ! (j + 1))) [0..<3])"
      by (rule scale_segment)
  qed
  then show ?thesis
    unfolding bcast3_def bcast_single_right map_map comp_def d_coeffs_def .
qed

lemma rearrange_segments:
  assumes "rearrange xs 4 = Inr cs" and "seg \<in> set cs"
  shows "length seg = 4"
proof -
  have m: "length xs mod 4 = 0" and cs: "cs = map (\<lambda>i. take 4 (drop (4 * i) xs)) [0..<length xs div 4]"
    using assms(1) by (auto simp add: rearrange_def split: if_splits)
  obtain i where "i < length xs div 4" and "seg = take 4 (drop (4 * i) xs)"
    using assms(2) cs by auto
  moreover have "length xs = 4 * (length xs div 4)" using m by presburger
  ultimately show ?thesis using block_length by blast
qed

lemma compute_coefficients_segments:
  assumes "compute_coefficients bs params = Inr cs" and "seg \<in> set cs"
  shows "length seg = 4"
proof (cases "einsum_nc_cd bs params")
  case (Inl e)
  then show ?thesis using assms(1) by (simp add: compute_coefficients_def)
next
  case (Inr x)
  then have "rearrange x 4 = Inr cs" using assms(1) by (simp add: compute_coefficients_def)
  then show ?thesis using assms(2) by (rule rearrange_segments)
qed

lemma curve_t_d_coeffs:
  assumes "compute_coefficients (basis sp) params = Inr cs"
  shows "curve_t t params sp
         = bindE (bcast1 (-) (q sp) (p sp)) (\<lambda>d.
           bindE (eval_polynomials t (num_edges sp) (d_coeffs cs) 3) (\<lambda>poly.
           bcast2 (+) [d] poly))"
proof -
  have "bcast3 (*) (map (drop 1) cs) [[[1], [2], [3]]] = Inr (d_coeffs cs)"
    by (rule dcoefficients_eq) (rule compute_coefficients_segments [OF assms])
  then show ?thesis
    unfolding curve_t_def assms reshape_arange_1_4_3 bindE_Inr by simp
qed

section \<open>Velocity\<close>

lemma d_coeffs_seg:
  assumes "length bs = 4 * n" and "dseg \<in> set (d_coeffs (coefficients_of bs params))"
  shows "length dseg = 3" and "ncols dseg = ncols params"
    and "row \<in> set dseg \<Longrightarrow> length row = ncols params"
proof -
  obtain seg where seg: "seg \<in> set (coefficients_of bs params)"
    and dseg: "dseg = map (\<lambda>j. map (\<lambda>x. x * real (j + 1)) (seg ! (j + 1))) [0..<3]"
    using assms(2) by (auto simp add: d_coeffs_def)
  have l4: "length seg = 4" using assms(1) seg by (rule coefficients_of_seg)
  have rl: "length (seg ! k) = ncols params" if "k < 4" for k
    using coefficients_of_seg(3) [OF assms(1) seg, of "seg ! k"] l4 that by simp
  show "length dseg = 3" by (simp add: dseg)
  show "ncols dseg = ncols params" using rl [of 1] by (simp add: dseg upt_3 ncols_def)
  show "length row = ncols params" if r: "row \<in> set dseg"
  proof -
    obtain j where "j < 3" and "row = map (\<lambda>x. x * real (j + 1)) (seg ! (j + 1))"
      using r by (auto simp add: dseg)
    then show ?thesis using rl [of "j + 1"] by simp
  qed
qed

lemma curve_t_Batch:
  assumes v: "valid_spline sp" and ps: "params_shape sp params"
  shows "curve_t (Batch ts) params sp
         = Inr (map (\<lambda>t. map2 (+) (map2 (-) (q sp) (p sp))
                     (poly_at (d_coeffs (coefficients_of (basis sp) params)
                                 ! nat (segment_index t (num_edges sp))) t)) ts)"
proof -
  let ?cs = "coefficients_of (basis sp) params"
  let ?ds = "d_coeffs ?cs"
  let ?d = "map2 (-) (q sp) (p sp)"
  let ?P = "map (\<lambda>t. poly_at (?ds ! nat (segment_index t (num_edges sp))) t) ts"
  note lb = valid_splineD(2) [OF v]
  have cc: "compute_coefficients (basis sp) params = Inr ?cs"
    using lb
  proof (rule compute_coefficients_of)
    fix row assume "row \<in> set (basis sp)"
    then show "length row = length params"
      using valid_splineD(4) [OF v] params_shapeD(1) [OF v ps] by simp
  qed
  have lds: "length ?ds = nat (num_edges sp)"
    using coefficients_of_length [OF lb, of params] by (simp add: d_coeffs_def)
  have d: "bcast1 (-) (q sp) (p sp) = Inr ?d"
    using valid_splineD(5) [OF v] by (simp add: bcast1_same_length)
  have ep: "eval_polynomials (Batch ts) (num_edges sp) ?ds 3 = Inr ?P"
  proof (rule eval_polynomials_Batch)
    show "1 \<le> num_edges sp" by (rule valid_splineD(1) [OF v])
    show "length ?ds = nat (num_edges sp)" by (rule lds)
    show "length seg = 3" if "seg \<in> set ?ds" for seg
      using lb that by (rule d_coeffs_seg)
    show "length row = ncols seg" if "seg \<in> set ?ds" "row \<in> set seg" for seg row
      using d_coeffs_seg(2,3) [OF lb that(1)] that(2) by simp
  qed
  have seg_in: "?ds ! nat (segment_index t (num_edges sp)) \<in> set ?ds" for t
    using segment_index_range [OF valid_splineD(1) [OF v], of t] lds
    by (intro nth_mem) linarith
  have add: "bcast2 (+) [?d] ?P = Inr (map (\<lambda>r. map2 (+) ?d r) ?P)"
  proof (rule bcast2_row_mat)
    fix r assume "r \<in> set ?P"
    then obtain t where "r = poly_at (?ds ! nat (segment_index t (num_edges sp))) t" by auto
    then have "length r = ncols params"
      using d_coeffs_seg(2) [OF lb seg_in] by (simp add: poly_at_def)
    then show "length r = length ?d"
      using valid_splineD(5) [OF v] params_shapeD(2) [OF v ps] by simp
  qed
  show ?thesis
    unfolding curve_t_d_coeffs [OF cc] d ep bindE_Inr add map_map comp_def ..
qed

lemma evaluate_Batch:
  assumes v: "valid_spline sp" and ps: "params_shape sp params"
  shows "evaluate sp (Batch ts) params
         = Inr \<lparr>point = map (\<lambda>t. map2 (+) (straight_line t (p sp) (q sp))
                     (poly_at (coefficients_of (basis sp) params
                                 ! nat (segment_index t (num_edges sp))) t)) ts,
                vector = map (\<lambda>t. map2 (+) (map2 (-) (q sp) (p sp))
                     (poly_at (d_coeffs (coefficients_of (basis sp) params)
                                 ! nat (segment_index t (num_edges sp))) t)) ts\<rparr>"
  unfolding evaluate_def curve_Batch [OF v ps] curve_t_Batch [OF v ps] bindE_Inr ..

section \<open>Zero parameters\<close>

lemma init_params_valid:
  assumes "valid_spline sp"
  shows "init_params sp = Inr (replicate (nat (num_nodes sp)) (replicate (length (p sp)) 0))"
    and "params_shape sp (replicate (nat (num_nodes sp)) (replicate (length (p sp)) 0))"
  using valid_splineD(6) [OF assms]
  by (simp_all add: init_params_def zeros_def params_shape_def list_all_iff)

lemma matmul_zero:
  assumes "0 < C"
  shows "matmul bs (replicate C (replicate D 0)) = replicate (length bs) (replicate D 0)"
proof -
  have nc: "ncols (replicate C (replicate D (0::real))) = D"
    using assms by (cases C) (simp_all add: ncols_def)
  have "map (\<lambda>d. \<Sum>c<C. row ! c * replicate C (replicate D (0::real)) ! c ! d) [0..<D]
        = replicate D 0" for row :: vec
    by (intro nth_equalityI) simp_all
  then show ?thesis
    unfolding matmul_def nc by (simp add: map_replicate_const)
qed

lemma coefficients_of_zero:
  assumes "length bs = 4 * n" and "0 < C"
  shows "coefficients_of bs (replicate C (replicate D 0)) = replicate n (replicate 4 (replicate D 0))"
proof -
  have "take 4 (drop (4 * i) (replicate (4 * n) (replicate D (0::real)))) = replicate 4 (replicate D 0)"
    if "i < n" for i
    using that by (simp add: min_def)
  then have "map (\<lambda>i. take 4 (drop (4 * i) (replicate (4 * n) (replicate D (0::real))))) [0..<n]
             = map (\<lambda>i. replicate 4 (replicate D 0)) [0..<n]"
    by (intro map_cong) simp_all
  then show ?thesis
    using assms by (simp add: coefficients_of_def matmul_zero map_replicate_const)
qed

lemma poly_at_zero:
  assumes "0 < k"
  shows "poly_at (replicate k (replicate D 0)) t = replicate D 0"
proof -
  have "ncols (replicate k (replicate D (0::real))) = D"
    using assms by (cases k) (simp_all add: ncols_def)
  then show ?thesis
    unfolding poly_at_def by (intro nth_equalityI) simp_all
qed

lemma d_coeffs_zero:
  "d_coeffs (replicate n (replicate 4 (replicate D 0))) = replicate n (replicate 3 (replicate D 0))"
proof -
  have "map (\<lambda>j. map (\<lambda>x. x * real (j + 1)) (replicate 4 (replicate D (0::real)) ! (j + 1))) [0..<3]
        = replicate 3 (replicate D 0)"
    by (simp add: upt_3 numeral_3_eq_3 map_replicate_const)
  then show ?thesis by (simp add: d_coeffs_def)
qed

lemma map2_add_zero: "length xs = D \<Longrightarrow> map2 (+) xs (replicate D (0::real)) = xs"
  by (intro nth_equalityI) simp_all

lemma evaluate_zero_params:
  assumes v: "valid_spline sp"
  shows "evaluate sp (Batch ts) (replicate (nat (num_nodes sp)) (replicate (length (p sp)) 0))
         = Inr \<lparr>point = map (\<lambda>t. straight_line t (p sp) (q sp)) ts,
                vector = map (\<lambda>t. map2 (-) (q sp) (p sp)) ts\<rparr>"
proof -
  let ?D = "length (p sp)"
  let ?z = "replicate (nat (num_nodes sp)) (replicate ?D (0::real))"
  note lb = valid_splineD(2) [OF v]
  have pos: "0 < nat (num_nodes sp)" using valid_splineD(6) [OF v] by simp
  have cs: "coefficients_of (basis sp) ?z = replicate (nat (num_edges sp)) (replicate 4 (replicate ?D 0))"
    using lb pos by (rule coefficients_of_zero)
  have k: "nat (segment_index t (num_edges sp)) < nat (num_edges sp)" for t
    using segment_index_range [OF valid_splineD(1) [OF v], of t] by linarith
  have a: "poly_at (coefficients_of (basis sp) ?z ! nat (segment_index t (num_edges sp))) t
           = replicate ?D 0" for t
    unfolding cs using k [of t] by (simp add: poly_at_zero)
  have b: "poly_at (d_coeffs (coefficients_of (basis sp) ?z) ! nat (segment_index t (num_edges sp))) t
           = replicate ?D 0" for t
    unfolding cs d_coeffs_zero using k [of t] by (simp add: poly_at_zero)
  have c: "map2 (+) (straight_line t (p sp) (q sp)) (replicate ?D 0) = straight_line t (p sp) (q sp)" for t
    by (rule map2_add_zero) (simp add: straight_line_def valid_splineD(5) [OF v])
  have d: "map2 (+) (map2 (-) (q sp) (p sp)) (replicate ?D 0) = map2 (-) (q sp) (p sp)"
    by (rule map2_add_zero) (simp add: valid_splineD(5) [OF v])
  show ?thesis
    unfolding evaluate_Batch [OF v init_params_valid(2) [OF v]] a b c d ..
qed

text \<open>
  Claim C3. For a valid descriptor and any batch of query times (inside \<open>[0, 1]\<close> or
  not), the curve evaluated at the all-zero parameter matrix of \<open>init_params\<close> is the
  straight line \<open>p + (q - p) t\<close>, row by row: the projected coefficients are zero.
\<close>

theorem zero_params_straight_line:
  assumes "valid_spline sp"
  shows "\<exists>z r. init_params sp = Inr z \<and> evaluate sp (Batch ts) z = Inr r
           \<and> point r = map (\<lambda>t. straight_line t (p sp) (q sp)) ts"
  using init_params_valid(1) [OF assms] evaluate_zero_params [OF assms, of ts] by simp

theorem zero_params_straight_line_witness:
  "valid_spline example_spline
   \<and> (\<exists>z r. init_params example_spline = Inr z
         \<and> evaluate example_spline (Batch [0, 1 / 2, 1]) z = Inr r
         \<and> point r = [[0, 0], [1 / 2, 1 / 2], [1, 1]])"
proof -
  have v: "valid_spline example_spline"
    by (simp add: valid_spline_def example_spline_def)
  show ?thesis
    using v zero_params_straight_line [OF v, of "[0, 1 / 2, 1]"]
    by (simp add: example_spline_def straight_line_def)
qed

section \<open>Velocity and segment selection\<close>

text \<open>
  Claim C5. Once the coefficients are computed (the parameter matrix contracts with the
  basis), \<^verbatim>\<open>_curve_t\<close> returns \<open>(q - p)\<close> plus the polynomial evaluator of degree 3
  on \<open>d_coeffs\<close>, the coefficient rows 1, 2, 3 scaled by 1, 2, 3; and \<open>evaluate\<close>
  returns that velocity as its vector field.
\<close>

theorem curve_t_velocity:
  assumes "compute_coefficients (basis sp) params = Inr cs"
  shows "curve_t t params sp = velocity t sp cs
         \<and> evaluate sp t params
             = bindE (curve t params sp) (\<lambda>y.
               bindE (velocity t sp cs) (\<lambda>y_dot. Inr \<lparr>point = y, vector = y_dot\<rparr>))"
  using curve_t_d_coeffs [OF assms, of t] by (simp add: velocity_def evaluate_def)

theorem curve_t_velocity_witness:
  "\<exists>cs r. compute_coefficients (basis example_spline) [[1, 2], [3, 4]] = Inr cs
     \<and> curve_t (Batch [0, 1 / 2]) [[1, 2], [3, 4]] example_spline
         = velocity (Batch [0, 1 / 2]) example_spline cs
     \<and> evaluate example_spline (Batch [0, 1 / 2]) [[1, 2], [3, 4]] = Inr r
     \<and> velocity (Batch [0, 1 / 2]) example_spline cs = Inr (vector r)"
proof -
  have v: "valid_spline example_spline"
    by (simp add: valid_spline_def example_spline_def)
  have ps: "params_shape example_spline [[1, 2], [3, 4]]"
    by (simp add: params_shape_def example_spline_def)
  have "compute_coefficients (basis example_spline) [[1, 2], [3, 4]]
        = Inr (coefficients_of (basis example_spline) [[1, 2], [3, 4]])"
    by (rule compute_coefficients_of [where n = 1]) (auto simp add: example_spline_def)
  then obtain cs where cs: "compute_coefficients (basis example_spline) [[1, 2], [3, 4]] = Inr cs"
    by blast
  obtain r where r: "evaluate example_spline (Batch [0, 1 / 2]) [[1, 2], [3, 4]] = Inr r"
    using evaluate_Batch [OF v ps] by blast
  have ct: "curve_t (Batch [0, 1 / 2]) [[1, 2], [3, 4]] example_spline = Inr (vector r)"
    using r unfolding evaluate_def curve_Batch [OF v ps] curve_t_Batch [OF v ps] by auto
  show ?thesis
    using cs r ct curve_t_velocity [OF cs, of "Batch [0, 1 / 2]"] by auto
qed

text \<open>
  Claim C7. For at least one segment and coefficients of shape
  \<open>(num_edges, degree, D)\<close>, the polynomial evaluator takes, for each query time
  \<open>t\<close>, the segment \<open>clip(floor(t * num_edges), 0, num_edges - 1)\<close>, which lies between
  0 and \<open>num_edges - 1\<close> and is the last one at \<open>t = 1\<close>; and it sums the coefficient
  rows of that segment times the powers \<open>t^0 .. t^(degree-1)\<close> of the global time
  \<open>t\<close> itself.
\<close>

theorem eval_polynomials_segment_selection:
  assumes "1 \<le> n" and "length coeffs = nat n" and "0 < degree"
    and "list_all (\<lambda>seg. length seg = degree \<and> list_all (\<lambda>row. length row = D) seg) coeffs"
  shows "eval_polynomials (Batch ts) n coeffs degree
           = Inr (map (\<lambda>t. map (\<lambda>c. \<Sum>d<degree. t ^ d * coeffs ! nat (segment_index t n) ! d ! c)
                             [0..<D]) ts)
         \<and> segment_index t n = min (max \<lfloor>t * of_int n\<rfloor> 0) (n - 1)
         \<and> 0 \<le> segment_index t n \<and> segment_index t n \<le> n - 1
         \<and> segment_index 1 n = n - 1"
proof -
  have deg: "length seg = degree" if "seg \<in> set coeffs" for seg
    using assms(4) that by (simp add: list_all_iff)
  have rows: "length row = D" if "seg \<in> set coeffs" "row \<in> set seg" for seg row
    using assms(4) that by (simp add: list_all_iff)
  have nc: "ncols seg = D" if "seg \<in> set coeffs" for seg
  proof -
    have "seg \<noteq> []" using deg [OF that] assms(3) by auto
    then obtain r rs where "seg = r # rs" by (cases seg) auto
    then show ?thesis using rows [OF that, of r] by (simp add: ncols_def)
  qed
  have sel: "coeffs ! nat (segment_index t n) \<in> set coeffs" for t
    using segment_index_range [OF assms(1), of t] assms(2) by (intro nth_mem) linarith
  have "eval_polynomials (Batch ts) n coeffs degree
        = Inr (map (\<lambda>t. poly_at (coeffs ! nat (segment_index t n)) t) ts)"
    using assms(1,2) deg
  proof (rule eval_polynomials_Batch)
    show "length row = ncols seg" if "seg \<in> set coeffs" "row \<in> set seg" for seg row
      using rows [OF that] nc [OF that(1)] by simp
  qed
  moreover have "poly_at (coeffs ! nat (segment_index t n)) t
                 = map (\<lambda>c. \<Sum>d<degree. t ^ d * coeffs ! nat (segment_index t n) ! d ! c) [0..<D]" for t
    by (simp add: poly_at_def nc [OF sel] deg [OF sel])
  moreover have "segment_index 1 n = n - 1"
    using assms(1) by (simp add: segment_index_def clip_def)
  ultimately show ?thesis
    using segment_index_range [OF assms(1), of t]
    by (simp add: segment_index_def clip_def)
qed

theorem eval_polynomials_segment_selection_witness:
  "(1::int) \<le> 2 \<and> length [[[1, 2], [3, 4]], [[5, 6], [7, 8::real]]] = nat 2 \<and> (0::nat) < 2
   \<and> list_all (\<lambda>seg. length seg = 2 \<and> list_all (\<lambda>row. length row = 2) seg)
        [[[1, 2], [3, 4]], [[5, 6], [7, 8::real]]]
   \<and> eval_polynomials (Batch [0, 1 / 4, 1 / 2, 1, 3 / 2, - 1]) 2
        [[[1, 2], [3, 4]], [[5, 6], [7, 8]]] 2
      = Inr [[1, 2], [7 / 4, 3], [17 / 2, 10], [12, 14], [31 / 2, 18], [- 2, - 2]]
   \<and> segment_index (1 / 4) 2 = 0 \<and> segment_index (1 / 2) 2 = 1 \<and> segment_index 1 2 = 1"
  using eval_polynomials_segment_selection
    [of 2 "[[[1, 2], [3, 4]], [[5, 6], [7, 8]]]" 2 2 "[0, 1 / 4, 1 / 2, 1, 3 / 2, - 1]" "1 / 4"]
    eval_polynomials_segment_selection
    [of 2 "[[[1, 2], [3, 4]], [[5, 6], [7, 8]]]" 2 2 "[]" "1 / 2"]
  by (simp add: segment_index_def clip_def numeral_2_eq_2 upt_rec)

section \<open>The rows of the constraint matrix\<close>

lemma at_set_slice_ok:
  assumes "i < length z" and "length (z ! i) = c" and "hi \<le> c" and "lo + length vals = hi"
  shows "at_set_slice z i lo hi vals = Inr (z[i := take lo (z ! i) @ vals @ drop hi (z ! i)])"
  using assms by (auto simp add: at_set_slice_def Let_def min_def)

lemma fill_step:
  assumes i: "i < length z" and len: "length (z ! i) = c" and b: "4 * i + 8 \<le> c"
    and f: "length f = 4"
  shows "bindE (at_set_slice z i (4 * i) (4 * i + 4) f) (\<lambda>z.
           bindE (at_set_slice z i (4 * i + 4) (4 * i + 8) (map uminus f)) k)
         = k (z[i := take (4 * i) (z ! i) @ f @ map uminus f @ drop (4 * i + 8) (z ! i)])"
proof -
  let ?row = "z ! i"
  let ?z1 = "z[i := take (4 * i) ?row @ f @ drop (4 * i + 4) ?row]"
  have s1: "at_set_slice z i (4 * i) (4 * i + 4) f = Inr ?z1"
    using i len by (rule at_set_slice_ok) (use b f in simp_all)
  have r1: "?z1 ! i = take (4 * i) ?row @ f @ drop (4 * i + 4) ?row" using i by simp
  have l1: "length (?z1 ! i) = c" unfolding r1 using len b f by simp
  have s2: "at_set_slice ?z1 i (4 * i + 4) (4 * i + 8) (map uminus f)
            = Inr (?z1[i := take (4 * i + 4) (?z1 ! i) @ map uminus f @ drop (4 * i + 8) (?z1 ! i)])"
    by (rule at_set_slice_ok [OF _ l1]) (use i b f in simp_all)
  have t: "take (4 * i + 4) (?z1 ! i) = take (4 * i) ?row @ f"
    unfolding r1 using len b f by simp
  have d: "drop (4 * i + 8) (?z1 ! i) = drop (4 * i + 8) ?row"
    unfolding r1 using len b f by (simp add: add.commute)
  show ?thesis
    unfolding s1 bindE_Inr s2 t d by simp
qed

lemma fill_loop_rows:
  assumes "\<And>x. length (fill x) = 4" and "distinct js"
    and "\<And>j. j \<in> set js \<Longrightarrow> j < length z \<and> 4 * j + 8 \<le> c"
    and "\<And>j. j < length z \<Longrightarrow> length (z ! j) = c"
  shows "\<exists>z'. fill_loop fill t js z = Inr z' \<and> length z' = length z
           \<and> (\<forall>j<length z. z' ! j =
                 (if j \<in> set js
                  then take (4 * j) (z ! j) @ fill (t ! j) @ map uminus (fill (t ! j))
                         @ drop (4 * j + 8) (z ! j)
                  else z ! j))"
  using assms(2-4)
proof (induction js arbitrary: z)
  case Nil
  then show ?case by simp
next
  case (Cons i js)
  let ?f = "fill (t ! i)"
  let ?z2 = "z[i := take (4 * i) (z ! i) @ ?f @ map uminus ?f @ drop (4 * i + 8) (z ! i)]"
  have i: "i < length z" and b: "4 * i + 8 \<le> c" using Cons.prems(2) [of i] by simp_all
  have len: "length (z ! i) = c" using Cons.prems(3) i by simp
  have step: "fill_loop fill t (i # js) z = fill_loop fill t js ?z2"
    using fill_step [OF i len b assms(1), of "t ! i" "fill_loop fill t js"]
    by (simp add: Let_def)
  have notin: "i \<notin> set js" and dist: "distinct js" using Cons.prems(1) by simp_all
  have rows2: "length (?z2 ! j) = c" if "j < length ?z2" for j
    using that Cons.prems(3) [of j] len b assms(1) [of "t ! i"]
    by (cases "j = i") simp_all
  have "\<exists>z'. fill_loop fill t js ?z2 = Inr z' \<and> length z' = length ?z2
           \<and> (\<forall>j<length ?z2. z' ! j =
                 (if j \<in> set js
                  then take (4 * j) (?z2 ! j) @ fill (t ! j) @ map uminus (fill (t ! j))
                         @ drop (4 * j + 8) (?z2 ! j)
                  else ?z2 ! j))"
  proof (rule Cons.IH [OF dist])
    show "j < length ?z2 \<and> 4 * j + 8 \<le> c" if "j \<in> set js" for j
      using Cons.prems(2) [of j] that by simp
    show "length (?z2 ! j) = c" if "j < length ?z2" for j
      using that by (rule rows2)
  qed
  then obtain z' where z': "fill_loop fill t js ?z2 = Inr z'" "length z' = length ?z2"
    and rs: "\<And>j. j < length ?z2 \<Longrightarrow> z' ! j =
                 (if j \<in> set js
                  then take (4 * j) (?z2 ! j) @ fill (t ! j) @ map uminus (fill (t ! j))
                         @ drop (4 * j + 8) (?z2 ! j)
                  else ?z2 ! j)"
    by blast
  have "z' ! j = (if j \<in> set (i # js)
                  then take (4 * j) (z ! j) @ fill (t ! j) @ map uminus (fill (t ! j))
                         @ drop (4 * j + 8) (z ! j)
                  else z ! j)" if "j < length z" for j
  proof (cases "j = i")
    case True
    then show ?thesis using rs [of j] that notin by simp
  next
    case False
    then show ?thesis using rs [of j] that by simp
  qed
  then show ?case using step z' by simp
qed

section \<open>The constraint matrix\<close>

lemma linspace_unit:
  "linspace 0 1 (int n + 1) = Inr (map (\<lambda>k. real k / real n) [0..<n + 1])"
  by (simp add: linspace_def nat_add_distrib)

lemma slice_inner_knot:
  assumes "i + 1 < n"
  shows "slice_inner (map (\<lambda>k. real k / real n) [0..<n + 1]) ! i = knot n i"
  using assms by (simp add: slice_inner_def knot_def)

lemma zeros_nat: "zeros (int r) (4 * int n) = Inr (replicate r (replicate (4 * n) 0))"
  by (simp add: zeros_def nat_mult_distrib)

lemma fill_loop_zero:
  assumes f: "\<And>x. length (fill x) = 4" and t: "\<And>i. i + 1 < n \<Longrightarrow> t ! i = knot n i"
  shows "fill_loop fill t [0..<n - 1] (replicate (n - 1) (replicate (4 * n) 0))
         = Inr (map (\<lambda>i. block_row n i (fill (knot n i))) [0..<n - 1])"
proof -
  let ?z = "replicate (n - 1) (replicate (4 * n) (0::real))"
  have "\<exists>z'. fill_loop fill t [0..<n - 1] ?z = Inr z' \<and> length z' = length ?z
           \<and> (\<forall>j<length ?z. z' ! j =
                 (if j \<in> set [0..<n - 1]
                  then take (4 * j) (?z ! j) @ fill (t ! j) @ map uminus (fill (t ! j))
                         @ drop (4 * j + 8) (?z ! j)
                  else ?z ! j))"
  proof (rule fill_loop_rows [where c = "4 * n"])
    show "length (fill x) = 4" for x by (rule f)
    show "distinct [0..<n - 1]" by simp
    show "j < length ?z \<and> 4 * j + 8 \<le> 4 * n" if "j \<in> set [0..<n - 1]" for j
      using that by auto
    show "length (?z ! j) = 4 * n" if "j < length ?z" for j
      using that by simp
  qed
  then obtain z' where z': "fill_loop fill t [0..<n - 1] ?z = Inr z'" and l: "length z' = n - 1"
    and rs: "\<And>j. j < n - 1 \<Longrightarrow> z' ! j =
               take (4 * j) (?z ! j) @ fill (t ! j) @ map uminus (fill (t ! j))
                 @ drop (4 * j + 8) (?z ! j)"
    by auto
  have "z' = map (\<lambda>i. block_row n i (fill (knot n i))) [0..<n - 1]"
  proof (rule nth_equalityI)
    show "length z' = length (map (\<lambda>i. block_row n i (fill (knot n i))) [0..<n - 1])"
      using l by simp
    fix j assume "j < length z'"
    then have j: "j < n - 1" using l by simp
    then have "t ! j = knot n j" by (intro t) simp
    then show "z' ! j = map (\<lambda>i. block_row n i (fill (knot n i))) [0..<n - 1] ! j"
      using rs [OF j] j by (simp add: block_row_def min_def)
  qed
  then show ?thesis using z' by simp
qed

lemma constraints_rows:
  assumes "1 \<le> n"
  shows "constraints (int n) = Inr (constraint_rows n)"
proof -
  define tt where "tt = slice_inner (map (\<lambda>k. real k / real n) [0..<n + 1])"
  define zr where "zr = replicate (4 * n) (0::real)"
  have t: "tt ! i = knot n i" if "i + 1 < n" for i
    unfolding tt_def using that by (rule slice_inner_knot)
  have ls: "linspace 0 1 (int n + 1) = Inr (map (\<lambda>k. real k / real n) [0..<n + 1])"
    by (rule linspace_unit)
  have a1: "at_set [zr, zr] 0 0 1 = Inr [zr[0 := 1], zr]"
    using assms by (simp add: at_set_def ncols_def zr_def)
  have a2: "at_set_last [zr[0 := 1], zr] 1 4 1
            = Inr [zr[0 := 1], replicate (4 * n - 4) 0 @ replicate 4 1]"
    using assms by (simp add: at_set_last_def min_def zr_def)
  have z2: "zeros 2 (4 * int n) = Inr [zr, zr]"
    using zeros_nat [of 2 n] by (simp add: numeral_2_eq_2 zr_def)
  have zm: "zeros (int n - 1) (4 * int n) = Inr (replicate (n - 1) zr)"
    using zeros_nat [of "n - 1" n] assms by (simp add: of_nat_diff zr_def)
  have nn: "nat (int n - 1) = n - 1" by simp
  have f0: "fill_loop (\<lambda>ti. [1, ti, ti ^ 2, ti ^ 3]) tt [0..<n - 1] (replicate (n - 1) zr)
            = Inr (map (\<lambda>i. block_row n i [1, knot n i, knot n i ^ 2, knot n i ^ 3]) [0..<n - 1])"
    unfolding zr_def by (rule fill_loop_zero) (simp_all add: t)
  have f1: "fill_loop (\<lambda>ti. [0, 1, 2 * ti, 3 * ti ^ 2]) tt [0..<n - 1] (replicate (n - 1) zr)
            = Inr (map (\<lambda>i. block_row n i [0, 1, 2 * knot n i, 3 * knot n i ^ 2]) [0..<n - 1])"
    unfolding zr_def by (rule fill_loop_zero) (simp_all add: t)
  have f2: "fill_loop (\<lambda>ti. [0, 0, 6 * ti, 2]) tt [0..<n - 1] (replicate (n - 1) zr)
            = Inr (map (\<lambda>i. block_row n i [0, 0, 6 * knot n i, 2]) [0..<n - 1])"
    unfolding zr_def by (rule fill_loop_zero) (simp_all add: t)
  show ?thesis
    unfolding constraints_def ls bindE_Inr Let_def tt_def [symmetric] z2 a1 a2 zm nn f0 f1 f2
    by (simp add: constraint_rows_def zr_def)
qed

section \<open>The decomposition and the null space\<close>

lemma dot_nth: "length xs = length ys \<Longrightarrow> dot xs ys = (\<Sum>i<length xs. xs ! i * ys ! i)"
proof -
  assume l: "length xs = length ys"
  have "dot xs ys = (\<Sum>i<length (map2 (*) xs ys). map2 (*) xs ys ! i)"
    unfolding dot_def by (simp add: sum_list_sum_nth atLeast0LessThan)
  also have "\<dots> = (\<Sum>i<length xs. xs ! i * ys ! i)"
    using l by (intro sum.cong) simp_all
  finally show ?thesis .
qed

lemma block_row_length:
  "i + 1 < n \<Longrightarrow> length f = 4 \<Longrightarrow> length (block_row n i f) = 4 * n"
  by (simp add: block_row_def)

lemma constraint_rows_length: "1 \<le> n \<Longrightarrow> length (constraint_rows n) = 3 * n - 1"
  by (simp add: constraint_rows_def)

lemma constraint_rows_row_length:
  assumes "1 \<le> n" and "r \<in> set (constraint_rows n)"
  shows "length r = 4 * n"
  using assms by (auto simp add: constraint_rows_def block_row_length)

lemma constraint_rows_ncols: "1 \<le> n \<Longrightarrow> ncols (constraint_rows n) = 4 * n"
  by (simp add: constraint_rows_def ncols_def)

lemma svd_contractD:
  assumes "svd_contract a (u, s, vt)"
  shows "length s = min (length a) (ncols a)" and "length vt = ncols a"
    and "\<And>i. i < ncols a \<Longrightarrow> length (vt ! i) = ncols a"
    and "\<And>i j. i < ncols a \<Longrightarrow> j < ncols a \<Longrightarrow> dot (vt ! i) (vt ! j) = (if i = j then 1 else 0)"
    and "\<And>i j. i < length a \<Longrightarrow> j < ncols a
           \<Longrightarrow> a ! i ! j = (\<Sum>k<length s. u ! i ! k * s ! k * vt ! k ! j)"
  using assms by (auto simp add: svd_contract_def list_all_iff)

lemma null_space:
  assumes c: "svd_contract a (u, s, vt)"
    and rect: "\<And>r. r \<in> set a \<Longrightarrow> length r = ncols a"
    and i: "i < length a" and l: "length s \<le> l" "l < ncols a"
  shows "dot (a ! i) (vt ! l) = 0"
proof -
  let ?c = "ncols a"
  let ?K = "length s"
  have K: "?K \<le> ?c" using svd_contractD(1) [OF c] by simp
  have la: "length (a ! i) = ?c" using rect i by simp
  have lv: "length (vt ! l) = ?c" using svd_contractD(3) [OF c l(2)] .
  have "dot (a ! i) (vt ! l) = (\<Sum>j<?c. a ! i ! j * vt ! l ! j)"
    using dot_nth [of "a ! i" "vt ! l"] la lv by simp
  also have "\<dots> = (\<Sum>j<?c. (\<Sum>k<?K. u ! i ! k * s ! k * vt ! k ! j) * vt ! l ! j)"
    using svd_contractD(5) [OF c i] by (intro sum.cong) simp_all
  also have "\<dots> = (\<Sum>j<?c. \<Sum>k<?K. (u ! i ! k * s ! k) * (vt ! k ! j * vt ! l ! j))"
    by (simp add: sum_distrib_right mult.assoc)
  also have "\<dots> = (\<Sum>k<?K. \<Sum>j<?c. (u ! i ! k * s ! k) * (vt ! k ! j * vt ! l ! j))"
    by (rule sum.swap)
  also have "\<dots> = (\<Sum>k<?K. (u ! i ! k * s ! k) * (\<Sum>j<?c. vt ! k ! j * vt ! l ! j))"
    by (simp add: sum_distrib_left)
  also have "\<dots> = (\<Sum>k<?K. (u ! i ! k * s ! k) * 0)"
  proof (rule sum.cong)
    fix k assume "k \<in> {..<?K}"
    then have k: "k < ?c" and ne: "k \<noteq> l" using K l(1) by simp_all
    have "dot (vt ! k) (vt ! l) = (\<Sum>j<?c. vt ! k ! j * vt ! l ! j)"
      using dot_nth [of "vt ! k" "vt ! l"] svd_contractD(3) [OF c k] lv by simp
    then have "(\<Sum>j<?c. vt ! k ! j * vt ! l ! j) = 0"
      using svd_contractD(4) [OF c k l(2)] ne by simp
    then show "(u ! i ! k * s ! k) * (\<Sum>j<?c. vt ! k ! j * vt ! l ! j) = (u ! i ! k * s ! k) * 0"
      by simp
  qed simp
  finally show ?thesis by simp
qed

section \<open>The basis\<close>

lemma transpose_drop:
  assumes "length vt = c" and "\<And>i. i < c \<Longrightarrow> length (vt ! i) = c"
  shows "map (drop k) (transpose vt) = trailing vt k c"
proof -
  have "transpose vt = map (\<lambda>i. map (\<lambda>j. vt ! j ! i) [0..<length vt]) [0..<c]"
    by (rule transpose_rectangle) (use assms in auto)
  then show ?thesis
    using assms(1) by (simp add: trailing_def drop_map comp_def)
qed

lemma svd_ok_contract:
  assumes "1 \<le> n" and "svd_ok svd (int n)"
  shows "svd_contract (constraint_rows n) (svd (constraint_rows n))"
  using assms(2) by (simp add: svd_ok_def constraints_rows [OF assms(1)])

lemma compute_basis_ok:
  assumes n: "1 \<le> n" and ok: "svd_ok svd (int n)" and sv: "svd (constraint_rows n) = (u, s, vt)"
  shows "compute_basis svd (int n) = Inr (trailing vt (3 * n - 1) (4 * n))"
    and "length s = 3 * n - 1"
proof -
  have c: "svd_contract (constraint_rows n) (u, s, vt)"
    using svd_ok_contract [OF n ok] sv by simp
  show ls: "length s = 3 * n - 1"
    using svd_contractD(1) [OF c] n
    by (simp add: constraint_rows_length constraint_rows_ncols)
  have "map (drop (length s)) (transpose vt) = trailing vt (length s) (4 * n)"
  proof (rule transpose_drop)
    show "length vt = 4 * n"
      using svd_contractD(2) [OF c] n by (simp add: constraint_rows_ncols)
    show "length (vt ! i) = 4 * n" if "i < 4 * n" for i
      using svd_contractD(3) [OF c, of i] that n by (simp add: constraint_rows_ncols)
  qed
  then show "compute_basis svd (int n) = Inr (trailing vt (3 * n - 1) (4 * n))"
    unfolding compute_basis_def constraints_rows [OF n] bindE_Inr sv by (simp add: ls)
qed

lemma trailing_shape:
  assumes "1 \<le> n"
  shows "length (trailing vt (3 * n - 1) (4 * n)) = 4 * n"
    and "row \<in> set (trailing vt (3 * n - 1) (4 * n)) \<Longrightarrow> length row = n + 1"
  using assms by (auto simp add: trailing_def)

lemma trailing_nth:
  assumes "r < c" and "j < c - k"
  shows "trailing vt k c ! r ! j = vt ! (k + j) ! r"
  using assms by (simp add: trailing_def)

lemma column_trailing:
  assumes "length (vt ! (k + j)) = c" and "j < c - k"
  shows "column (trailing vt k c) j = vt ! (k + j)"
proof (rule nth_equalityI)
  show "length (column (trailing vt k c) j) = length (vt ! (k + j))"
    using assms(1) by (simp add: column_def trailing_def)
  fix r assume "r < length (column (trailing vt k c) j)"
  then have r: "r < c" by (simp add: column_def trailing_def)
  then show "column (trailing vt k c) j ! r = vt ! (k + j) ! r"
    using assms(2) by (simp add: column_def trailing_def)
qed

lemma from_nodes_valid:
  assumes n: "2 \<le> N" and ok: "svd_ok svd (N - 1)" and len: "length p0 = length q0"
  shows "\<exists>b. from_nodes svd p0 q0 N
              = Inr \<lparr>p = p0, q = q0, num_nodes = N, num_edges = N - 1, basis = b\<rparr>
           \<and> compute_basis svd (N - 1) = Inr b
           \<and> valid_spline \<lparr>p = p0, q = q0, num_nodes = N, num_edges = N - 1, basis = b\<rparr>"
proof -
  define m where "m = nat (N - 1)"
  have m: "1 \<le> m" and im: "int m = N - 1" using n by (simp_all add: m_def)
  obtain u s vt where sv: "svd (constraint_rows m) = (u, s, vt)"
    by (cases "svd (constraint_rows m)") auto
  let ?b = "trailing vt (3 * m - 1) (4 * m)"
  have ok': "svd_ok svd (int m)" using ok im by simp
  have cb: "compute_basis svd (N - 1) = Inr ?b"
    using compute_basis_ok(1) [OF m ok' sv] im by simp
  have "valid_spline \<lparr>p = p0, q = q0, num_nodes = N, num_edges = N - 1, basis = ?b\<rparr>"
    using n len trailing_shape [OF m, where vt = vt] im
    by (auto simp add: valid_spline_def list_all_iff m_def nat_mult_distrib)
  then show ?thesis using cb by (simp add: from_nodes_def)
qed

section \<open>An example of a decomposition\<close>

lemma upt_4: "[0..<4] = [0, 1, 2, 3]"
  by (simp add: upt_rec)

lemma constraint_rows_1: "constraint_rows 1 = [[1, 0, 0, 0], [1, 1, 1, 1]]"
  by (simp add: constraint_rows_def numeral_eq_Suc)

lemma lessThan_2_sum: "(\<Sum>k<(2::nat). f k) = f 0 + (f 1 :: real)"
  by (simp add: numeral_2_eq_2)

lemma example_svd_contract: "svd_contract (constraint_rows 1) (example_svd (constraint_rows 1))"
  unfolding constraint_rows_1 example_svd_def svd_contract_def example_vt_def
  by (simp add: ncols_def upt_4 upt_rec [of 0 2] dot_def lessThan_2_sum)

lemma example_svd_ok: "svd_ok example_svd 1"
  using constraints_rows [of 1] example_svd_contract by (simp add: svd_ok_def)

lemma example_basis: "compute_basis example_svd 1 = Inr (basis example_spline)"
proof -
  have "compute_basis example_svd (int 1) = Inr (trailing example_vt (3 * 1 - 1) (4 * 1))"
    by (rule compute_basis_ok(1) [of 1 example_svd "[[1, 0], [1, 1]]" "[1, sqrt 3]"])
       (simp_all add: example_svd_ok example_svd_def)
  moreover have "trailing example_vt (3 * 1 - 1) (4 * 1) = basis example_spline"
    by (simp add: trailing_def example_vt_def example_spline_def upt_4 upt_rec [of 2 4] upt_rec [of 3 4])
  ultimately show ?thesis by simp
qed

lemma example_from_nodes: "from_nodes example_svd [0, 0] [1, 1] 2 = Inr example_spline"
  using example_basis by (simp add: from_nodes_def example_spline_def)

section \<open>The endpoint rows\<close>

lemma dot_unit_first:
  assumes "length v = c" and "0 < c"
  shows "dot ((replicate c 0)[0 := 1]) v = v ! 0"
proof -
  have "dot ((replicate c 0)[0 := 1]) v = (\<Sum>i<c. (replicate c 0)[0 := 1] ! i * v ! i)"
    using dot_nth [of "(replicate c 0)[0 := 1]" v] assms(1) by simp
  also have "\<dots> = (\<Sum>i<c. if i = 0 then v ! 0 else 0)"
    by (intro sum.cong) (auto simp add: nth_list_update)
  also have "\<dots> = v ! 0"
    using assms(2) by (simp add: sum.delta')
  finally show ?thesis .
qed

lemma dot_ones_last:
  assumes "length v = c" and "4 \<le> c"
  shows "dot (replicate (c - 4) 0 @ replicate 4 1) v = (\<Sum>d<4. v ! (c - 4 + d))"
proof -
  let ?r = "replicate (c - 4) 0 @ replicate 4 (1::real)"
  have lr: "length ?r = c" using assms(2) by simp
  have "dot ?r v = (\<Sum>i<c. ?r ! i * v ! i)"
    using dot_nth [of ?r v] assms(1) lr by simp
  also have "\<dots> = (\<Sum>i<c. if c - 4 \<le> i then v ! i else 0)"
    by (intro sum.cong) (auto simp add: nth_append)
  also have "\<dots> = (\<Sum>i\<in>{c - 4..<c}. v ! i)"
  proof -
    have "{i \<in> {..<c}. c - 4 \<le> i} = {c - 4..<c}" by auto
    then show ?thesis by (simp add: sum.If_cases Int_def)
  qed
  also have "\<dots> = (\<Sum>d<4. v ! (c - 4 + d))"
  proof -
    have "(\<Sum>i\<in>{c - 4..<c - 4 + 4}. v ! i) = (\<Sum>d\<in>{0..<4}. v ! (c - 4 + d))"
      using sum.shift_bounds_nat_ivl [of "\<lambda>i. v ! i" 0 "c - 4" 4] by (simp add: add.commute)
    then show ?thesis using assms(2) by (simp add: atLeast0LessThan)
  qed
  finally show ?thesis .
qed

lemma endpoint_rows:
  assumes n: "1 \<le> n" and c: "svd_contract (constraint_rows n) (u, s, vt)" and j: "j < n + 1"
  shows "trailing vt (3 * n - 1) (4 * n) ! 0 ! j = 0"
    and "(\<Sum>d<4. trailing vt (3 * n - 1) (4 * n) ! (4 * n - 4 + d) ! j) = 0"
proof -
  let ?a = "constraint_rows n"
  let ?l = "3 * n - 1 + j"
  have nc: "ncols ?a = 4 * n" using n by (rule constraint_rows_ncols)
  have ls: "length s = 3 * n - 1"
    using svd_contractD(1) [OF c] n by (simp add: constraint_rows_length nc)
  have l: "length s \<le> ?l" "?l < ncols ?a" using ls j n by (simp_all add: nc)
  have lv: "length (vt ! ?l) = 4 * n" using svd_contractD(3) [OF c l(2)] nc by simp
  have rect: "length r = ncols ?a" if "r \<in> set ?a" for r
    using constraint_rows_row_length [OF n that] nc by simp
  have z: "dot (?a ! i) (vt ! ?l) = 0" if "i < length ?a" for i
    using c rect that l by (rule null_space)
  have r0: "?a ! 0 = (replicate (4 * n) 0)[0 := 1]"
    and r1: "?a ! 1 = replicate (4 * n - 4) 0 @ replicate 4 1"
    by (simp_all add: constraint_rows_def)
  have len: "1 < length ?a" using n by (simp add: constraint_rows_def)
  have len0: "0 < length ?a" using len by linarith
  have "dot ((replicate (4 * n) 0)[0 := 1]) (vt ! ?l) = 0"
    using z [OF len0] unfolding r0 .
  moreover have "dot ((replicate (4 * n) 0)[0 := 1]) (vt ! ?l) = vt ! ?l ! 0"
    by (rule dot_unit_first [OF lv]) (use n in simp)
  ultimately have "vt ! ?l ! 0 = 0" by simp
  then show "trailing vt (3 * n - 1) (4 * n) ! 0 ! j = 0"
    using j n by (simp add: trailing_nth)
  have "dot (replicate (4 * n - 4) 0 @ replicate 4 1) (vt ! ?l) = 0"
    using z [OF len] unfolding r1 .
  moreover have "dot (replicate (4 * n - 4) 0 @ replicate 4 1) (vt ! ?l)
                 = (\<Sum>d<4. vt ! ?l ! (4 * n - 4 + d))"
    by (rule dot_ones_last [OF lv]) (use n in simp)
  ultimately have "(\<Sum>d<4. vt ! ?l ! (4 * n - 4 + d)) = 0" by simp
  moreover have "trailing vt (3 * n - 1) (4 * n) ! (4 * n - 4 + d) ! j = vt ! ?l ! (4 * n - 4 + d)"
    if "d < 4" for d
    using that j n by (simp add: trailing_nth)
  ultimately show "(\<Sum>d<4. trailing vt (3 * n - 1) (4 * n) ! (4 * n - 4 + d) ! j) = 0"
    by simp
qed

section \<open>Evaluation at the endpoints\<close>

lemma sum_4: "(\<Sum>d<(4::nat). f d) = f 0 + f 1 + f 2 + (f 3 :: real)"
  by (simp add: numeral_eq_Suc)

lemma evaluate_endpoints:
  assumes v: "valid_spline sp" and ps: "params_shape sp params"
    and b0: "\<And>j. j < nat (num_nodes sp) \<Longrightarrow> basis sp ! 0 ! j = 0"
    and b1: "\<And>j. j < nat (num_nodes sp)
               \<Longrightarrow> (\<Sum>d<4. basis sp ! (4 * nat (num_edges sp) - 4 + d) ! j) = 0"
  shows "\<exists>r. evaluate sp (Batch ts) params = Inr r \<and> length (point r) = length ts
           \<and> (\<forall>i<length ts. (ts ! i = 0 \<longrightarrow> point r ! i = p sp)
                             \<and> (ts ! i = 1 \<longrightarrow> point r ! i = q sp))"
proof -
  let ?n = "nat (num_edges sp)"
  let ?D = "length (p sp)"
  let ?cs = "coefficients_of (basis sp) params"
  let ?row = "\<lambda>t. map2 (+) (straight_line t (p sp) (q sp))
                     (poly_at (?cs ! nat (segment_index t (num_edges sp))) t)"
  note lb = valid_splineD(2) [OF v]
  note ne = valid_splineD(1) [OF v]
  have n1: "1 \<le> ?n" using ne by simp
  have lp: "length params = nat (num_nodes sp)" by (rule params_shapeD(1) [OF v ps])
  have nc: "ncols params = ?D" by (rule params_shapeD(2) [OF v ps])
  have seg: "length (?cs ! k) = 4" "ncols (?cs ! k) = ?D" if "k < ?n" for k
  proof -
    have "?cs ! k \<in> set ?cs" using that coefficients_of_length [OF lb, of params] by simp
    then show "length (?cs ! k) = 4" "ncols (?cs ! k) = ?D"
      using coefficients_of_seg(1,2) [OF lb] nc by simp_all
  qed
  have entry: "?cs ! k ! d ! c = (\<Sum>j<nat (num_nodes sp). basis sp ! (4 * k + d) ! j * params ! j ! c)"
    if "k < ?n" "d < 4" "c < ?D" for k d c
    using coefficients_of_nth [OF lb that(1,2), of c params] that(3) nc lp by simp
  have s0: "nat (segment_index 0 (num_edges sp)) = 0"
    using ne by (simp add: segment_index_def clip_def)
  have s1: "nat (segment_index 1 (num_edges sp)) = ?n - 1"
    using ne by (simp add: segment_index_def clip_def nat_diff_distrib)
  have p0: "poly_at (?cs ! 0) 0 = replicate ?D 0"
  proof (rule nth_equalityI)
    show "length (poly_at (?cs ! 0) 0) = length (replicate ?D (0::real))"
      using seg(2) [of 0] n1 by (simp add: poly_at_def)
    fix c assume "c < length (poly_at (?cs ! 0) 0)"
    then have c: "c < ?D" using seg(2) [of 0] n1 by (simp add: poly_at_def)
    have "?cs ! 0 ! 0 ! c = 0"
      using entry [of 0 0 c] n1 c b0 by simp
    then show "poly_at (?cs ! 0) 0 ! c = replicate ?D 0 ! c"
      using c seg [of 0] n1 by (simp add: poly_at_def sum_4)
  qed
  have p1: "poly_at (?cs ! (?n - 1)) 1 = replicate ?D 0"
  proof (rule nth_equalityI)
    have k: "?n - 1 < ?n" using n1 by simp
    show "length (poly_at (?cs ! (?n - 1)) 1) = length (replicate ?D (0::real))"
      using seg(2) [OF k] by (simp add: poly_at_def)
    fix c assume "c < length (poly_at (?cs ! (?n - 1)) 1)"
    then have c: "c < ?D" using seg(2) [OF k] by (simp add: poly_at_def)
    have i4: "4 * (?n - 1) + d = 4 * ?n - 4 + d" for d using n1 by simp
    have e2: "?cs ! (?n - 1) ! d ! c
              = (\<Sum>j<nat (num_nodes sp). basis sp ! (4 * ?n - 4 + d) ! j * params ! j ! c)"
      if "d < 4" for d
      unfolding i4 [symmetric] using k that c by (rule entry)
    have "(\<Sum>d<4. ?cs ! (?n - 1) ! d ! c)
          = (\<Sum>d<4. \<Sum>j<nat (num_nodes sp). basis sp ! (4 * ?n - 4 + d) ! j * params ! j ! c)"
      by (rule sum.cong) (simp_all only: e2 lessThan_iff)
    also have "\<dots> = (\<Sum>j<nat (num_nodes sp). \<Sum>d<4. basis sp ! (4 * ?n - 4 + d) ! j * params ! j ! c)"
      by (rule sum.swap)
    also have "\<dots> = (\<Sum>j<nat (num_nodes sp). (\<Sum>d<4. basis sp ! (4 * ?n - 4 + d) ! j) * params ! j ! c)"
      by (simp add: sum_distrib_right)
    also have "\<dots> = 0" using b1 by simp
    finally have "(\<Sum>d<4. ?cs ! (?n - 1) ! d ! c) = 0" .
    then show "poly_at (?cs ! (?n - 1)) 1 ! c = replicate ?D 0 ! c"
      using c seg [OF k] by (simp add: poly_at_def)
  qed
  have lq: "length (q sp) = ?D" using valid_splineD(5) [OF v] by simp
  have sl0: "straight_line 0 (p sp) (q sp) = p sp"
    using lq by (intro nth_equalityI) (simp_all add: straight_line_def)
  have sl1: "straight_line 1 (p sp) (q sp) = q sp"
    using lq by (intro nth_equalityI) (simp_all add: straight_line_def)
  have r0: "?row 0 = p sp"
    unfolding s0 p0 sl0 by (rule map2_add_zero) simp
  have r1: "?row 1 = q sp"
    unfolding s1 p1 sl1 by (rule map2_add_zero) (rule lq)
  have "point \<lparr>point = map ?row ts, vector = w\<rparr> ! i = ?row (ts ! i)" if "i < length ts" for i w
    using that by simp
  then show ?thesis
    unfolding evaluate_Batch [OF v ps] using r0 r1 by auto
qed

section \<open>Shape and orthonormality of the basis; endpoint interpolation\<close>

lemma from_nodes_basis:
  assumes n: "2 \<le> N" and ok: "svd_ok svd (N - 1)"
  shows "\<exists>u s vt. svd_contract (constraint_rows (nat (N - 1))) (u, s, vt)
           \<and> compute_basis svd (N - 1)
               = Inr (trailing vt (3 * nat (N - 1) - 1) (4 * nat (N - 1)))"
proof -
  define m where "m = nat (N - 1)"
  have m: "1 \<le> m" and im: "int m = N - 1" using n by (simp_all add: m_def)
  obtain u s vt where sv: "svd (constraint_rows m) = (u, s, vt)"
    by (cases "svd (constraint_rows m)") auto
  have ok': "svd_ok svd (int m)" using ok im by simp
  have c: "svd_contract (constraint_rows m) (u, s, vt)"
    using svd_ok_contract [OF m ok'] sv by simp
  have "compute_basis svd (N - 1) = Inr (trailing vt (3 * m - 1) (4 * m))"
    using compute_basis_ok(1) [OF m ok' sv] im by simp
  then show ?thesis using c unfolding m_def by blast
qed

text \<open>
  Claim C6. For \<open>num_edges \<ge> 1\<close> and a decomposition that meets the contract,
  \<^verbatim>\<open>_compute_basis\<close> returns a matrix of \<open>4 num_edges\<close> rows and
  \<open>4 num_edges - (2 + 3 (num_edges - 1)) = num_edges + 1\<close> columns, and its
  columns are orthonormal: they are the rows of \<open>vt\<close> past the singular values.
\<close>

theorem basis_shape_orthonormal:
  assumes "1 \<le> m" and "svd_ok svd m"
  shows "\<exists>b. compute_basis svd m = Inr b \<and> int (length b) = 4 * m
           \<and> (\<forall>row \<in> set b. int (length row) = 4 * m - (2 + 3 * (m - 1))
                                \<and> int (length row) = m + 1)
           \<and> (\<forall>i j. i < nat (m + 1) \<longrightarrow> j < nat (m + 1)
                  \<longrightarrow> dot (column b i) (column b j) = (if i = j then 1 else 0))"
proof -
  define n where "n = nat m"
  have n: "1 \<le> n" and m: "m = int n" using assms(1) by (simp_all add: n_def)
  have N: "2 \<le> m + 1" "m + 1 - 1 = m" using assms(1) by simp_all
  obtain u s vt where c: "svd_contract (constraint_rows n) (u, s, vt)"
    and cb: "compute_basis svd m = Inr (trailing vt (3 * n - 1) (4 * n))"
    using from_nodes_basis [of "m + 1" svd] N assms(2) unfolding n_def by auto
  let ?b = "trailing vt (3 * n - 1) (4 * n)"
  have nc: "ncols (constraint_rows n) = 4 * n" using n by (rule constraint_rows_ncols)
  have col: "column ?b j = vt ! (3 * n - 1 + j)" if "j < n + 1" for j
  proof (rule column_trailing)
    show "length (vt ! (3 * n - 1 + j)) = 4 * n"
      using svd_contractD(3) [OF c, of "3 * n - 1 + j"] that n nc by simp
    show "j < 4 * n - (3 * n - 1)" using that n by simp
  qed
  have orth: "dot (column ?b i) (column ?b j) = (if i = j then 1 else 0)"
    if "i < n + 1" "j < n + 1" for i j
  proof -
    have "3 * n - 1 + i < ncols (constraint_rows n)" "3 * n - 1 + j < ncols (constraint_rows n)"
      using that n nc by simp_all
    then have "dot (vt ! (3 * n - 1 + i)) (vt ! (3 * n - 1 + j))
               = (if 3 * n - 1 + i = 3 * n - 1 + j then 1 else 0)"
      by (rule svd_contractD(4) [OF c])
    then show ?thesis unfolding col [OF that(1)] col [OF that(2)] by simp
  qed
  have rows: "int (length row) = 4 * m - (2 + 3 * (m - 1)) \<and> int (length row) = m + 1"
    if "row \<in> set ?b" for row
    using trailing_shape(2) [OF n that] m by simp
  have "int (length ?b) = 4 * m" using trailing_shape(1) [OF n, where vt = vt] m by simp
  moreover have "nat (m + 1) = n + 1" using m by simp
  ultimately show ?thesis using cb rows orth by auto
qed

theorem basis_shape_orthonormal_witness:
  "(1::int) \<le> 1 \<and> svd_ok example_svd 1
   \<and> (\<exists>b. compute_basis example_svd 1 = Inr b \<and> b = basis example_spline \<and> length b = 4
         \<and> length (b ! 0) = 2
         \<and> dot (column b 0) (column b 0) = 1 \<and> dot (column b 0) (column b 1) = 0
         \<and> dot (column b 1) (column b 1) = 1)"
proof -
  obtain b where b: "compute_basis example_svd 1 = Inr b" "int (length b) = 4 * 1"
    and orth: "\<And>i j. i < nat (1 + 1) \<Longrightarrow> j < nat (1 + 1)
                 \<Longrightarrow> dot (column b i) (column b j) = (if i = j then 1 else 0)"
    using basis_shape_orthonormal [of 1 example_svd] example_svd_ok by auto
  have eq: "b = basis example_spline" using b(1) example_basis by simp
  have "length (b ! 0) = 2" unfolding eq by (simp add: example_spline_def)
  then show ?thesis
    using b eq orth [of 0 0] orth [of 0 1] orth [of 1 1] example_svd_ok by simp
qed

text \<open>
  Claim C1. For a descriptor built with \<open>num_nodes \<ge> 2\<close> by a decomposition that
  meets the contract, endpoints \<open>p\<close> and \<open>q\<close> of dimension \<open>D\<close>, and any parameter
  matrix of shape \<open>(num_nodes, D)\<close>: the evaluation of a batch of times succeeds, and
  its point is \<open>p\<close> at every time 0 of the batch and \<open>q\<close> at every time 1.
\<close>

theorem endpoint_interpolation:
  assumes "2 \<le> N" and "svd_ok svd (N - 1)"
    and "length p0 = D" and "length q0 = D"
    and "length params = nat N" and "list_all (\<lambda>row. length row = D) params"
  shows "\<exists>sp r. from_nodes svd p0 q0 N = Inr sp \<and> evaluate sp (Batch ts) params = Inr r
           \<and> length (point r) = length ts
           \<and> (\<forall>i<length ts. (ts ! i = 0 \<longrightarrow> point r ! i = p0)
                             \<and> (ts ! i = 1 \<longrightarrow> point r ! i = q0))"
proof -
  define n where "n = nat (N - 1)"
  have n: "1 \<le> n" and nN: "nat N = n + 1" using assms(1) by (simp_all add: n_def)
  obtain u s vt where c: "svd_contract (constraint_rows n) (u, s, vt)"
    and cb: "compute_basis svd (N - 1) = Inr (trailing vt (3 * n - 1) (4 * n))"
    using from_nodes_basis [OF assms(1,2)] unfolding n_def by blast
  let ?sp = "\<lparr>p = p0, q = q0, num_nodes = N, num_edges = N - 1,
              basis = trailing vt (3 * n - 1) (4 * n)\<rparr>"
  have fn: "from_nodes svd p0 q0 N = Inr ?sp"
    by (simp add: from_nodes_def cb)
  have v: "valid_spline ?sp"
    using from_nodes_valid [OF assms(1,2), of p0 q0] assms(3,4) cb by auto
  have ps: "params_shape ?sp params"
    using assms(3,5,6) by (simp add: params_shape_def)
  have "\<exists>r. evaluate ?sp (Batch ts) params = Inr r \<and> length (point r) = length ts
           \<and> (\<forall>i<length ts. (ts ! i = 0 \<longrightarrow> point r ! i = p ?sp)
                             \<and> (ts ! i = 1 \<longrightarrow> point r ! i = q ?sp))"
    using v ps
  proof (rule evaluate_endpoints)
    fix j assume "j < nat (num_nodes ?sp)"
    then have j: "j < n + 1" using nN by simp
    show "basis ?sp ! 0 ! j = 0"
      using endpoint_rows(1) [OF n c j] by simp
    have "nat (num_edges ?sp) = n" by (simp add: n_def)
    then show "(\<Sum>d<4. basis ?sp ! (4 * nat (num_edges ?sp) - 4 + d) ! j) = 0"
      using endpoint_rows(2) [OF n c j] by simp
  qed
  then show ?thesis using fn by auto
qed

lemma list_two: "length xs = 2 \<Longrightarrow> xs = [xs ! 0, xs ! 1]"
  by (cases xs; simp; cases "tl xs"; simp)

theorem endpoint_interpolation_witness:
  "(2::int) \<le> 2 \<and> svd_ok example_svd (2 - 1)
   \<and> length [0, 0::real] = 2 \<and> length [1, 1::real] = 2
   \<and> length [[1, 2], [3, 4::real]] = nat 2
   \<and> list_all (\<lambda>row. length row = 2) [[1, 2], [3, 4::real]]
   \<and> (\<exists>r. from_nodes example_svd [0, 0] [1, 1] 2 = Inr example_spline
         \<and> evaluate example_spline (Batch [0, 1]) [[1, 2], [3, 4]] = Inr r
         \<and> point r = [[0, 0], [1, 1]])"
proof -
  have ok: "svd_ok example_svd (2 - 1)" using example_svd_ok by simp
  obtain sp r where sp: "from_nodes example_svd [0, 0] [1, 1] 2 = Inr sp"
    and r: "evaluate sp (Batch [0, 1]) [[1, 2], [3, 4]] = Inr r"
    and l: "length (point r) = length [0, 1::real]"
    and e: "\<And>i. i < length [0, 1::real]
              \<Longrightarrow> ([0, 1::real] ! i = 0 \<longrightarrow> point r ! i = [0, 0])
                  \<and> ([0, 1::real] ! i = 1 \<longrightarrow> point r ! i = [1, 1])"
    using endpoint_interpolation [of 2 example_svd "[0, 0]" 2 "[1, 1]" "[[1, 2], [3, 4]]" "[0, 1]"] ok
    by auto
  have "sp = example_spline" using sp example_from_nodes by simp
  moreover have "point r = [[0, 0], [1, 1]]"
    using list_two [of "point r"] l e [of 0] e [of 1] by simp
  ultimately show ?thesis using r ok example_from_nodes by simp
qed

section \<open>The concrete scenario; the second derivative at a knot\<close>

text \<open>
  Claim C9. For the descriptor of two nodes from \<open>(0, 0)\<close> to \<open>(1, 1)\<close>, built with
  a decomposition that meets the contract, and the zero parameter matrix of shape
  \<open>(2, 2)\<close>, the evaluation at the batch holding the time \<open>1/2\<close> returns the point
  \<open>(1/2, 1/2)\<close> and the vector \<open>(1, 1)\<close>, each as the one row of its batch.
\<close>

theorem concrete_scenario:
  assumes "svd_ok svd 1"
  shows "\<exists>sp. from_nodes svd [0, 0] [1, 1] 2 = Inr sp \<and> num_edges sp = 1
           \<and> evaluate sp (Batch [1 / 2]) [[0, 0], [0, 0]]
               = Inr \<lparr>point = [[1 / 2, 1 / 2]], vector = [[1, 1]]\<rparr>"
proof -
  have ok: "svd_ok svd (2 - 1)" using assms by simp
  obtain b where fn: "from_nodes svd [0, 0] [1, 1] 2
                      = Inr \<lparr>p = [0, 0], q = [1, 1], num_nodes = 2, num_edges = 2 - 1, basis = b\<rparr>"
    and v: "valid_spline \<lparr>p = [0, 0], q = [1, 1], num_nodes = 2, num_edges = 2 - 1, basis = b\<rparr>"
    using from_nodes_valid [of 2 svd "[0, 0]" "[1, 1]", OF _ ok] by auto
  have z: "replicate (nat 2) (replicate (length [0, 0::real]) (0::real)) = [[0, 0], [0, 0]]"
    by (simp add: numeral_2_eq_2)
  show ?thesis
    using fn evaluate_zero_params [OF v, of "[1 / 2]"]
    by (simp add: z straight_line_def numeral_2_eq_2)
qed

theorem concrete_scenario_witness:
  "svd_ok example_svd 1
   \<and> from_nodes example_svd [0, 0] [1, 1] 2 = Inr example_spline
   \<and> num_edges example_spline = 1
   \<and> evaluate example_spline (Batch [1 / 2]) [[0, 0], [0, 0]]
       = Inr \<lparr>point = [[1 / 2, 1 / 2]], vector = [[1, 1]]\<rparr>"
  using concrete_scenario [OF example_svd_ok] example_svd_ok example_from_nodes by auto

lemma constraints_2:
  "constraints 2 =
     Inr [[1, 0, 0, 0, 0, 0, 0, 0],
          [0, 0, 0, 0, 1, 1, 1, 1],
          [1, 1 / 2, 1 / 4, 1 / 8, - 1, - (1 / 2), - (1 / 4), - (1 / 8)],
          [0, 1, 1, 3 / 4, 0, - 1, - 1, - (3 / 4)],
          [0, 0, 3, 2, 0, 0, - 3, - 2]]"
proof -
  have "constraints (int 2) = Inr (constraint_rows 2)" by (rule constraints_rows) simp
  moreover have "constraint_rows 2 =
     [[1, 0, 0, 0, 0, 0, 0, 0],
      [0, 0, 0, 0, 1, 1, 1, 1],
      [1, 1 / 2, 1 / 4, 1 / 8, - 1, - (1 / 2), - (1 / 4), - (1 / 8)],
      [0, 1, 1, 3 / 4, 0, - 1, - 1, - (3 / 4)],
      [0, 0, 3, 2, 0, 0, - 3, - 2]]"
    by (simp add: constraint_rows_def block_row_def knot_def numeral_eq_Suc power2_eq_square power3_eq_cube)
  ultimately show ?thesis by simp
qed

text \<open>
  Claim C2, at three nodes. The vector \<open>x = (0, 0, 8, -12, 1, -1, 0, 0)\<close> satisfies
  every row of the constraint matrix of two segments, so it is a coefficient vector the
  basis reaches. Its segments \<open>8 t\<^sup>2 - 12 t\<^sup>3\<close> and \<open>1 - t\<close> agree at the knot
  \<open>t = 1/2\<close> in value and in first derivative, but their second derivatives there are
  \<open>-20\<close> and \<open>0\<close> (and \<open>-4\<close> and \<open>0\<close> by the acceleration formula of the
  specification): the last row of the matrix is \<open>(0, 0, 6 t, 2)\<close> where the second
  derivative of the monomials is \<open>(0, 0, 2, 6 t)\<close>.
\<close>

theorem second_derivative_jump:
  "(\<exists>a. constraints 2 = Inr a \<and> a ! 4 = [0, 0, 3, 2, 0, 0, - 3, - 2]
        \<and> map (\<lambda>row. dot row [0, 0, 8, - 12, 1, - 1, 0, 0]) a = [0, 0, 0, 0, 0])
   \<and> cubic_value [0, 0, 8, - 12] (1 / 2) = cubic_value [1, - 1, 0, 0] (1 / 2)
   \<and> cubic_first [0, 0, 8, - 12] (1 / 2) = cubic_first [1, - 1, 0, 0] (1 / 2)
   \<and> cubic_second [0, 0, 8, - 12] (1 / 2) = - 20
   \<and> cubic_second [1, - 1, 0, 0] (1 / 2) = 0
   \<and> dd_value [0, 0, 8, - 12] (1 / 2) = - 4
   \<and> dd_value [1, - 1, 0, 0] (1 / 2) = 0"
  by (simp add: constraints_2 dot_def cubic_value_def cubic_first_def cubic_second_def
      dd_value_def power2_eq_square power3_eq_cube)

section \<open>Scalar products with the continuity rows\<close>

lemma dot_append:
  "length xs = length us \<Longrightarrow> dot (xs @ ys) (us @ vs) = dot xs us + dot ys vs"
  by (simp add: dot_def)

lemma dot_zeros: "dot (replicate k 0) us = 0"
  by (simp add: dot_def zip_replicate1 comp_def)

lemma take_four:
  assumes "k + 4 \<le> length v"
  shows "take 4 (drop k v) = [v ! k, v ! (k + 1), v ! (k + 2), v ! (k + 3)]"
proof (rule nth_equalityI)
  show "length (take 4 (drop k v)) = length [v ! k, v ! (k + 1), v ! (k + 2), v ! (k + 3)]"
    using assms by simp
  fix i assume "i < length (take 4 (drop k v))"
  then have "i < 4" by simp
  then consider "i = 0" | "i = 1" | "i = 2" | "i = 3" by linarith
  then show "take 4 (drop k v) ! i = [v ! k, v ! (k + 1), v ! (k + 2), v ! (k + 3)] ! i"
    using assms by cases simp_all
qed

lemma dot_block_row:
  assumes i: "i + 1 < n" and lv: "length v = 4 * n"
  shows "dot (block_row n i [a0, a1, a2, a3]) v
         = a0 * (v ! (4 * i) - v ! (4 * i + 4)) + a1 * (v ! (4 * i + 1) - v ! (4 * i + 5))
           + a2 * (v ! (4 * i + 2) - v ! (4 * i + 6)) + a3 * (v ! (4 * i + 3) - v ! (4 * i + 7))"
proof -
  let ?f = "[a0, a1, a2, a3]"
  define v1 where "v1 = take (4 * i) v"
  define v2 where "v2 = take 4 (drop (4 * i) v)"
  define v3 where "v3 = take 4 (drop (4 * i + 4) v)"
  define v4 where "v4 = drop (4 * i + 8) v"
  have d1: "drop 4 (drop (4 * i) v) = drop (4 * i + 4) v"
    and d2: "drop 4 (drop (4 * i + 4) v) = drop (4 * i + 8) v"
    by (simp_all add: add.commute)
  have "v = v1 @ drop (4 * i) v"
    unfolding v1_def by (rule append_take_drop_id [symmetric])
  also have "drop (4 * i) v = v2 @ drop (4 * i + 4) v"
    unfolding v2_def d1 [symmetric] by (rule append_take_drop_id [symmetric])
  also have "drop (4 * i + 4) v = v3 @ v4"
    unfolding v3_def v4_def d2 [symmetric] by (rule append_take_drop_id [symmetric])
  finally have split: "v = v1 @ v2 @ v3 @ v4" .
  have l1: "length (replicate (4 * i) (0::real)) = length v1" using i lv by (simp add: v1_def)
  have l2: "length ?f = length v2" using i lv by (simp add: v2_def)
  have l3: "length (map uminus ?f) = length v3" using i lv by (simp add: v3_def)
  have e2: "v2 = [v ! (4 * i), v ! (4 * i + 1), v ! (4 * i + 2), v ! (4 * i + 3)]"
    unfolding v2_def by (rule take_four) (use i lv in simp)
  have e3: "v3 = [v ! (4 * i + 4), v ! (4 * i + 5), v ! (4 * i + 6), v ! (4 * i + 7)]"
    using take_four [of "4 * i + 4" v] i lv by (simp add: v3_def add.commute)
  have "dot (block_row n i ?f) v
        = dot (replicate (4 * i) 0 @ ?f @ map uminus ?f @ replicate (4 * n - (4 * i + 8)) 0)
              (v1 @ v2 @ v3 @ v4)"
    using split by (simp add: block_row_def)
  also have "\<dots> = dot (replicate (4 * i) 0) v1 + (dot ?f v2 + (dot (map uminus ?f) v3
                     + dot (replicate (4 * n - (4 * i + 8)) 0) v4))"
    by (simp only: dot_append [OF l1] dot_append [OF l2] dot_append [OF l3])
  also have "\<dots> = dot ?f v2 + dot (map uminus ?f) v3"
    by (simp add: dot_zeros)
  also have "\<dots> = a0 * (v ! (4 * i) - v ! (4 * i + 4)) + a1 * (v ! (4 * i + 1) - v ! (4 * i + 5))
           + a2 * (v ! (4 * i + 2) - v ! (4 * i + 6)) + a3 * (v ! (4 * i + 3) - v ! (4 * i + 7))"
    unfolding e2 e3 by (simp add: dot_def algebra_simps)
  finally show ?thesis .
qed

section \<open>The continuity rows on the basis\<close>

lemma nth_four_blocks:
  assumes "length e = 2" and "length z = m" and "length f = m" and "length s = m" and "i < m"
  shows "(e @ z @ f @ s) ! (2 + i) = z ! i"
    and "(e @ z @ f @ s) ! (2 + m + i) = f ! i"
    and "(e @ z @ f @ s) ! (2 + 2 * m + i) = s ! i"
  using assms by (simp_all add: nth_append)

lemma constraint_rows_nth:
  assumes "i + 1 < n"
  shows "constraint_rows n ! (2 + i) = block_row n i [1, knot n i, knot n i ^ 2, knot n i ^ 3]"
    and "constraint_rows n ! (2 + (n - 1) + i)
         = block_row n i [0, 1, 2 * knot n i, 3 * knot n i ^ 2]"
    and "constraint_rows n ! (2 + 2 * (n - 1) + i) = block_row n i [0, 0, 6 * knot n i, 2]"
proof -
  define z where "z = map (\<lambda>i. block_row n i [1, knot n i, knot n i ^ 2, knot n i ^ 3]) [0..<n - 1]"
  define f where "f = map (\<lambda>i. block_row n i [0, 1, 2 * knot n i, 3 * knot n i ^ 2]) [0..<n - 1]"
  define s where "s = map (\<lambda>i. block_row n i [0, 0, 6 * knot n i, 2]) [0..<n - 1]"
  define e where "e = [(replicate (4 * n) 0)[0 := 1], replicate (4 * n - 4) 0 @ replicate 4 (1::real)]"
  have cr: "constraint_rows n = e @ z @ f @ s"
    by (simp add: constraint_rows_def e_def z_def f_def s_def)
  have i: "i < n - 1" using assms by simp
  have le: "length e = 2" and lz: "length z = n - 1" and lf: "length f = n - 1"
    and ls: "length s = n - 1"
    by (simp_all add: e_def z_def f_def s_def)
  note nth = nth_four_blocks [OF le lz lf ls i]
  show "constraint_rows n ! (2 + i) = block_row n i [1, knot n i, knot n i ^ 2, knot n i ^ 3]"
    unfolding cr nth(1) using i by (simp add: z_def)
  show "constraint_rows n ! (2 + (n - 1) + i)
        = block_row n i [0, 1, 2 * knot n i, 3 * knot n i ^ 2]"
    unfolding cr nth(2) using i by (simp add: f_def)
  show "constraint_rows n ! (2 + 2 * (n - 1) + i) = block_row n i [0, 0, 6 * knot n i, 2]"
    unfolding cr nth(3) using i by (simp add: s_def)
qed

lemma continuity_rows:
  assumes c: "svd_contract (constraint_rows n) (u, s, vt)" and i: "i + 1 < n" and j: "j < n + 1"
  defines "b \<equiv> trailing vt (3 * n - 1) (4 * n)" and "t \<equiv> knot n i"
  shows "(b ! (4 * i) ! j - b ! (4 * i + 4) ! j) + t * (b ! (4 * i + 1) ! j - b ! (4 * i + 5) ! j)
           + t ^ 2 * (b ! (4 * i + 2) ! j - b ! (4 * i + 6) ! j)
           + t ^ 3 * (b ! (4 * i + 3) ! j - b ! (4 * i + 7) ! j) = 0"
    and "(b ! (4 * i + 1) ! j - b ! (4 * i + 5) ! j)
           + 2 * t * (b ! (4 * i + 2) ! j - b ! (4 * i + 6) ! j)
           + 3 * t ^ 2 * (b ! (4 * i + 3) ! j - b ! (4 * i + 7) ! j) = 0"
    and "6 * t * (b ! (4 * i + 2) ! j - b ! (4 * i + 6) ! j)
           + 2 * (b ! (4 * i + 3) ! j - b ! (4 * i + 7) ! j) = 0"
proof -
  let ?a = "constraint_rows n"
  let ?l = "3 * n - 1 + j"
  have n: "1 \<le> n" using i by simp
  have nc: "ncols ?a = 4 * n" using n by (rule constraint_rows_ncols)
  have la: "length ?a = 3 * n - 1" using n by (rule constraint_rows_length)
  have ls: "length s = 3 * n - 1"
    using svd_contractD(1) [OF c] n by (simp add: la nc)
  have l: "length s \<le> ?l" "?l < ncols ?a" using ls j n by (simp_all add: nc)
  have lv: "length (vt ! ?l) = 4 * n" using svd_contractD(3) [OF c l(2)] nc by simp
  have rect: "length r = ncols ?a" if "r \<in> set ?a" for r
    using constraint_rows_row_length [OF n that] nc by simp
  have z: "dot (?a ! k) (vt ! ?l) = 0" if "k < length ?a" for k
    using c rect that l by (rule null_space)
  have bn: "b ! r ! j = vt ! ?l ! r" if "r < 4 * n" for r
    unfolding b_def using that j n by (simp add: trailing_nth)
  have r: "4 * i < 4 * n" "4 * i + 1 < 4 * n" "4 * i + 2 < 4 * n" "4 * i + 3 < 4 * n"
    "4 * i + 4 < 4 * n" "4 * i + 5 < 4 * n" "4 * i + 6 < 4 * n" "4 * i + 7 < 4 * n"
    using i by simp_all
  note bs = r [THEN bn]
  have k0: "2 + i < length ?a" and k1: "2 + (n - 1) + i < length ?a"
    and k2: "2 + 2 * (n - 1) + i < length ?a"
    using i la by simp_all
  show "(b ! (4 * i) ! j - b ! (4 * i + 4) ! j) + t * (b ! (4 * i + 1) ! j - b ! (4 * i + 5) ! j)
           + t ^ 2 * (b ! (4 * i + 2) ! j - b ! (4 * i + 6) ! j)
           + t ^ 3 * (b ! (4 * i + 3) ! j - b ! (4 * i + 7) ! j) = 0"
    using z [OF k0] unfolding constraint_rows_nth(1) [OF i] dot_block_row [OF i lv] bs t_def
    by simp
  show "(b ! (4 * i + 1) ! j - b ! (4 * i + 5) ! j)
           + 2 * t * (b ! (4 * i + 2) ! j - b ! (4 * i + 6) ! j)
           + 3 * t ^ 2 * (b ! (4 * i + 3) ! j - b ! (4 * i + 7) ! j) = 0"
    using z [OF k1] unfolding constraint_rows_nth(2) [OF i] dot_block_row [OF i lv] bs t_def
    by simp
  show "6 * t * (b ! (4 * i + 2) ! j - b ! (4 * i + 6) ! j)
           + 2 * (b ! (4 * i + 3) ! j - b ! (4 * i + 7) ! j) = 0"
    using z [OF k2] unfolding constraint_rows_nth(3) [OF i] dot_block_row [OF i lv] bs t_def
    by simp
qed

section \<open>Continuity at the interior knots\<close>

lemma cubic_sums:
  fixes E F :: "nat \<Rightarrow> nat \<Rightarrow> real"
  assumes "\<And>j. j < M \<Longrightarrow> a0 * (E 0 j - F 0 j) + a1 * (E 1 j - F 1 j)
                        + a2 * (E 2 j - F 2 j) + a3 * (E 3 j - F 3 j) = 0"
  shows "a0 * (\<Sum>j<M. E 0 j * P j) + a1 * (\<Sum>j<M. E 1 j * P j)
           + a2 * (\<Sum>j<M. E 2 j * P j) + a3 * (\<Sum>j<M. E 3 j * P j)
         = a0 * (\<Sum>j<M. F 0 j * P j) + a1 * (\<Sum>j<M. F 1 j * P j)
           + a2 * (\<Sum>j<M. F 2 j * P j) + a3 * (\<Sum>j<M. F 3 j * P j)"
proof -
  have "(\<Sum>j<M. (a0 * (E 0 j - F 0 j) + a1 * (E 1 j - F 1 j)
                  + a2 * (E 2 j - F 2 j) + a3 * (E 3 j - F 3 j)) * P j) = 0"
    using assms by simp
  moreover have "(\<Sum>j<M. (a0 * (E 0 j - F 0 j) + a1 * (E 1 j - F 1 j)
                  + a2 * (E 2 j - F 2 j) + a3 * (E 3 j - F 3 j)) * P j)
        = (a0 * (\<Sum>j<M. E 0 j * P j) + a1 * (\<Sum>j<M. E 1 j * P j)
           + a2 * (\<Sum>j<M. E 2 j * P j) + a3 * (\<Sum>j<M. E 3 j * P j))
        - (a0 * (\<Sum>j<M. F 0 j * P j) + a1 * (\<Sum>j<M. F 1 j * P j)
           + a2 * (\<Sum>j<M. F 2 j * P j) + a3 * (\<Sum>j<M. F 3 j * P j))"
    by (simp add: algebra_simps sum.distrib sum_subtractf sum_distrib_left)
  ultimately show ?thesis by simp
qed

text \<open>
  At every interior knot, for every parameter matrix, the two segments that meet there
  agree in value and in first derivative, and in the quantity \<open>6 t c\<^sub>2 + 2 c\<^sub>3\<close> that the
  third loop of \<^verbatim>\<open>_compute_basis\<close> constrains (which is not the second derivative
  \<open>2 c\<^sub>2 + 6 t c\<^sub>3\<close>).
\<close>

lemma knot_continuity:
  assumes N: "2 \<le> N" and ok: "svd_ok svd (N - 1)" and fn: "from_nodes svd p0 q0 N = Inr sp"
    and lp: "length params = nat N" and i: "i + 1 < nat (N - 1)" and c: "c < ncols params"
  defines "cs \<equiv> coefficients_of (basis sp) params" and "t \<equiv> knot (nat (N - 1)) i"
  shows "cubic_value (column (cs ! i) c) t = cubic_value (column (cs ! (i + 1)) c) t"
    and "cubic_first (column (cs ! i) c) t = cubic_first (column (cs ! (i + 1)) c) t"
    and "6 * t * column (cs ! i) c ! 2 + 2 * column (cs ! i) c ! 3
         = 6 * t * column (cs ! (i + 1)) c ! 2 + 2 * column (cs ! (i + 1)) c ! 3"
proof -
  define n where "n = nat (N - 1)"
  have n: "1 \<le> n" and nN: "nat N = n + 1" using N by (simp_all add: n_def)
  obtain u s vt where ct: "svd_contract (constraint_rows n) (u, s, vt)"
    and cb: "compute_basis svd (N - 1) = Inr (trailing vt (3 * n - 1) (4 * n))"
    using from_nodes_basis [OF N ok] unfolding n_def by blast
  define b where "b = trailing vt (3 * n - 1) (4 * n)"
  have bs: "basis sp = b" using fn cb by (auto simp add: from_nodes_def b_def)
  have lb: "length b = 4 * n" unfolding b_def using n by (rule trailing_shape)
  have i': "i + 1 < n" using i by (simp add: n_def)
  define M where "M = n + 1"
  define E where "E d j = b ! (4 * i + d) ! j" for d j
  define F where "F d j = b ! (4 * i + 4 + d) ! j" for d j
  define P where "P j = params ! j ! c" for j
  have ent: "cs ! k ! d ! c = (\<Sum>j<M. b ! (4 * k + d) ! j * P j)" if "k < n" "d < 4" for k d
    unfolding cs_def bs P_def M_def using coefficients_of_nth [OF lb that c] lp nN by simp
  have l4: "length (cs ! k) = 4" if "k < n" for k
  proof -
    have "cs ! k \<in> set cs"
      using that coefficients_of_length [OF lb, of params] by (simp add: cs_def bs)
    then show ?thesis using coefficients_of_seg(1) [OF lb] by (simp add: cs_def bs)
  qed
  have col: "column (cs ! k) c ! d = cs ! k ! d ! c" if "k < n" "d < 4" for k d
    using l4 [OF that(1)] that(2) by (simp add: column_def)
  have i0: "i < n" using i' by simp
  have ci: "column (cs ! i) c ! d = (\<Sum>j<M. E d j * P j)" if "d < 4" for d
  proof -
    have "column (cs ! i) c ! d = cs ! i ! d ! c" using i0 that by (rule col)
    also have "\<dots> = (\<Sum>j<M. b ! (4 * i + d) ! j * P j)" using i0 that by (rule ent)
    finally show ?thesis unfolding E_def .
  qed
  have ci1: "column (cs ! (i + 1)) c ! d = (\<Sum>j<M. F d j * P j)" if "d < 4" for d
  proof -
    have e: "4 * (i + 1) + d = 4 * i + 4 + d" by simp
    have "column (cs ! (i + 1)) c ! d = cs ! (i + 1) ! d ! c" using i' that by (rule col)
    also have "\<dots> = (\<Sum>j<M. b ! (4 * (i + 1) + d) ! j * P j)" using i' that by (rule ent)
    finally show ?thesis unfolding e F_def .
  qed
  note rows = continuity_rows [OF ct i', folded b_def, folded t_def [unfolded n_def [symmetric]]]
  have v: "1 * (\<Sum>j<M. E 0 j * P j) + t * (\<Sum>j<M. E 1 j * P j)
           + t ^ 2 * (\<Sum>j<M. E 2 j * P j) + t ^ 3 * (\<Sum>j<M. E 3 j * P j)
         = 1 * (\<Sum>j<M. F 0 j * P j) + t * (\<Sum>j<M. F 1 j * P j)
           + t ^ 2 * (\<Sum>j<M. F 2 j * P j) + t ^ 3 * (\<Sum>j<M. F 3 j * P j)"
  proof (rule cubic_sums)
    fix j assume "j < M"
    then show "1 * (E 0 j - F 0 j) + t * (E 1 j - F 1 j) + t ^ 2 * (E 2 j - F 2 j)
               + t ^ 3 * (E 3 j - F 3 j) = 0"
      using rows(1) [of j] by (simp add: E_def F_def add.commute add.left_commute add.assoc M_def)
  qed
  have f: "0 * (\<Sum>j<M. E 0 j * P j) + 1 * (\<Sum>j<M. E 1 j * P j)
           + (2 * t) * (\<Sum>j<M. E 2 j * P j) + (3 * t ^ 2) * (\<Sum>j<M. E 3 j * P j)
         = 0 * (\<Sum>j<M. F 0 j * P j) + 1 * (\<Sum>j<M. F 1 j * P j)
           + (2 * t) * (\<Sum>j<M. F 2 j * P j) + (3 * t ^ 2) * (\<Sum>j<M. F 3 j * P j)"
  proof (rule cubic_sums)
    fix j assume "j < M"
    then show "0 * (E 0 j - F 0 j) + 1 * (E 1 j - F 1 j) + (2 * t) * (E 2 j - F 2 j)
               + (3 * t ^ 2) * (E 3 j - F 3 j) = 0"
      using rows(2) [of j] by (simp add: E_def F_def add.commute add.left_commute add.assoc M_def)
  qed
  have s: "0 * (\<Sum>j<M. E 0 j * P j) + 0 * (\<Sum>j<M. E 1 j * P j)
           + (6 * t) * (\<Sum>j<M. E 2 j * P j) + 2 * (\<Sum>j<M. E 3 j * P j)
         = 0 * (\<Sum>j<M. F 0 j * P j) + 0 * (\<Sum>j<M. F 1 j * P j)
           + (6 * t) * (\<Sum>j<M. F 2 j * P j) + 2 * (\<Sum>j<M. F 3 j * P j)"
  proof (rule cubic_sums)
    fix j assume "j < M"
    then show "0 * (E 0 j - F 0 j) + 0 * (E 1 j - F 1 j) + (6 * t) * (E 2 j - F 2 j)
               + 2 * (E 3 j - F 3 j) = 0"
      using rows(3) [of j] by (simp add: E_def F_def add.commute add.left_commute add.assoc M_def)
  qed
  have d4: "(0::nat) < 4" "(1::nat) < 4" "(2::nat) < 4" "(3::nat) < 4" by simp_all
  note cols = d4 [THEN ci] d4 [THEN ci1]
  show "cubic_value (column (cs ! i) c) t = cubic_value (column (cs ! (i + 1)) c) t"
    unfolding cubic_value_def cols using v by (simp add: mult.commute)
  show "cubic_first (column (cs ! i) c) t = cubic_first (column (cs ! (i + 1)) c) t"
    unfolding cubic_first_def cols using f by (simp add: mult.commute mult.left_commute)
  show "6 * t * column (cs ! i) c ! 2 + 2 * column (cs ! i) c ! 3
         = 6 * t * column (cs ! (i + 1)) c ! 2 + 2 * column (cs ! (i + 1)) c ! 3"
    unfolding cols using s by simp
qed

end
